theory Spec2Isabelle
  imports Main "HOL-Library.Sublist" "HOL-Library.Multiset"
begin

section \<open>Strings\<close>

text \<open>
  A Go string is a sequence of bytes, here a \<^typ>\<open>string\<close> whose characters are the bytes.
  \<open>fmt.Sprintf\<close> with \<open>%s\<close> verbs only is concatenation.

  \<open>strings.Contains(s, substr)\<close>: \<open>substr\<close> occurs in \<open>s\<close> as a contiguous block.
\<close>

fun Contains :: "string \<Rightarrow> string \<Rightarrow> bool" where
  "Contains [] substr = (substr = [])"
| "Contains (c # cs) substr = (prefix substr (c # cs) \<or> Contains cs substr)"

text \<open>
  \<open>strings.Split(s, sep)\<close> for a separator of one byte (the program only splits on
  \<open>","\<close>): the pieces between the separators, one more than there are separators; the
  empty string splits into one empty piece. The result is never empty, so the first
  branch of the \<open>case\<close> is never taken.
\<close>

fun Split :: "string \<Rightarrow> char \<Rightarrow> string list" where
  "Split [] sep = [[]]"
| "Split (c # cs) sep =
     (if c = sep then [] # Split cs sep
      else (case Split cs sep of [] \<Rightarrow> [[c]] | p # ps \<Rightarrow> (c # p) # ps))"

text \<open>
  \<open>strings.TrimSpace\<close> removes leading and trailing white space as Unicode defines it
  (\<open>unicode.IsSpace\<close>), decoding the bytes as UTF-8. The white space code points and
  their UTF-8 encodings: U+0009 to U+000D, U+0020, U+0085, U+00A0, U+1680, U+2000 to
  U+200A, U+2028, U+2029, U+202F, U+205F, U+3000. A byte sequence that is not one of
  these encodings decodes to another code point or to the error rune, neither of which
  is white space, so trimming is stripping these encodings from both ends.
\<close>

definition whiteSpace :: "string list" where
  "whiteSpace =
    [[CHR 0x09], [CHR 0x0A], [CHR 0x0B], [CHR 0x0C], [CHR 0x0D], [CHR 0x20],
     [CHR 0xC2, CHR 0x85], [CHR 0xC2, CHR 0xA0],
     [CHR 0xE1, CHR 0x9A, CHR 0x80],
     [CHR 0xE2, CHR 0x80, CHR 0x80], [CHR 0xE2, CHR 0x80, CHR 0x81],
     [CHR 0xE2, CHR 0x80, CHR 0x82], [CHR 0xE2, CHR 0x80, CHR 0x83],
     [CHR 0xE2, CHR 0x80, CHR 0x84], [CHR 0xE2, CHR 0x80, CHR 0x85],
     [CHR 0xE2, CHR 0x80, CHR 0x86], [CHR 0xE2, CHR 0x80, CHR 0x87],
     [CHR 0xE2, CHR 0x80, CHR 0x88], [CHR 0xE2, CHR 0x80, CHR 0x89],
     [CHR 0xE2, CHR 0x80, CHR 0x8A],
     [CHR 0xE2, CHR 0x80, CHR 0xA8], [CHR 0xE2, CHR 0x80, CHR 0xA9],
     [CHR 0xE2, CHR 0x80, CHR 0xAF],
     [CHR 0xE2, CHR 0x81, CHR 0x9F],
     [CHR 0xE3, CHR 0x80, CHR 0x80]]"

text \<open>The white space rune a string starts with, and the one it ends with.\<close>

definition leadingSpace :: "string \<Rightarrow> string option" where
  "leadingSpace s = find (\<lambda>e. prefix e s) whiteSpace"

definition trailingSpace :: "string \<Rightarrow> string option" where
  "trailingSpace s = find (\<lambda>e. suffix e s) whiteSpace"

function TrimLeft :: "string \<Rightarrow> string" where
  "TrimLeft s =
     (case leadingSpace s of None \<Rightarrow> s | Some e \<Rightarrow> TrimLeft (drop (length e) s))"
  by pat_completeness auto
termination
proof (relation "measure length")
  show "wf (measure length)" by simp
next
  fix s :: string and e :: string
  assume "leadingSpace s = Some e"
  then have "e \<in> set whiteSpace" and "prefix e s"
    by (auto simp: leadingSpace_def find_Some_iff)
  then have "e \<noteq> []" and "length e \<le> length s"
    by (auto simp: whiteSpace_def prefix_length_le)
  then show "(drop (length e) s, s) \<in> measure length"
    by (cases e) auto
qed

function TrimRight :: "string \<Rightarrow> string" where
  "TrimRight s =
     (case trailingSpace s of None \<Rightarrow> s
      | Some e \<Rightarrow> TrimRight (take (length s - length e) s))"
  by pat_completeness auto
termination
proof (relation "measure length")
  show "wf (measure length)" by simp
next
  fix s :: string and e :: string
  assume "trailingSpace s = Some e"
  then have "e \<in> set whiteSpace" and "suffix e s"
    by (auto simp: trailingSpace_def find_Some_iff)
  then have "e \<noteq> []" and "length e \<le> length s"
    by (auto simp: whiteSpace_def suffix_length_le)
  then show "(take (length s - length e) s, s) \<in> measure length"
    by (cases e) auto
qed

definition TrimSpace :: "string \<Rightarrow> string" where
  "TrimSpace s = TrimRight (TrimLeft s)"

text \<open>A string made of white space only (the empty string included).\<close>

function whitespaceOnly :: "string \<Rightarrow> bool" where
  "whitespaceOnly s =
     (s = [] \<or>
      (case leadingSpace s of None \<Rightarrow> False
       | Some e \<Rightarrow> whitespaceOnly (drop (length e) s)))"
  by pat_completeness auto
termination
proof (relation "measure length")
  show "wf (measure length)" by simp
next
  fix s :: string and e :: string
  assume "leadingSpace s = Some e"
  then have "e \<in> set whiteSpace" and "prefix e s"
    by (auto simp: leadingSpace_def find_Some_iff)
  then have "e \<noteq> []" and "length e \<le> length s"
    by (auto simp: whiteSpace_def prefix_length_le)
  then show "(drop (length e) s, s) \<in> measure length"
    by (cases e) auto
qed

section \<open>Parsing the instance list\<close>

text \<open>
  \<open>filterEmptyStrings\<close>: the loop appends the trimmed piece to \<open>filtered\<close> when it is
  not empty.
\<close>

fun filterEmptyStrings_loop :: "string list \<Rightarrow> string list \<Rightarrow> string list" where
  "filterEmptyStrings_loop filtered [] = filtered"
| "filterEmptyStrings_loop filtered (s # slice) =
     (let trimmed = TrimSpace s in
      if trimmed \<noteq> [] then filterEmptyStrings_loop (filtered @ [trimmed]) slice
      else filterEmptyStrings_loop filtered slice)"

definition filterEmptyStrings :: "string list \<Rightarrow> string list" where
  "filterEmptyStrings slice = filterEmptyStrings_loop [] slice"

definition parseInstances :: "string \<Rightarrow> string list" where
  "parseInstances instanceFlag = filterEmptyStrings (Split instanceFlag (CHR '',''))"

section \<open>The status fetcher\<close>

text \<open>
  What \<open>http.Get\<close> and \<open>encoding/json\<close> give the program is the environment's choice.
  \<open>http.Get(url)\<close> returns an error (its text) or a response with a status code, a
  status line text and a body. \<open>json.NewDecoder(body).Decode\<close> first reads one complete
  JSON value off the body: that fails (a read error, an empty body, a syntax error), or
  yields the value, which is then stored into the destination. A body is represented by
  the outcome of that first stage.
\<close>

datatype json =
    JNull
  | JBool bool
  | JNumber string
  | JString string
  | JArray "json list"
  | JObject "(string \<times> json) list"

datatype body = BodyError string | BodyValue json

record Response =
  StatusCode :: int
  Status :: string
  Body :: body

datatype getResult = GetError string | GetResponse Response

record MinimalAPIResponse =
  ReleaseNumber :: string

text \<open>
  An object key is stored into the struct field tagged \<open>releaseNumber\<close> when it equals
  the tag, or equals it up to case folding. Folding maps the ASCII letters to upper
  case; the only non-ASCII code point that folds to a letter of the tag is U+017F
  (long s, bytes C5 BF), which folds to S.
\<close>

definition toUpperASCII :: "char \<Rightarrow> char" where
  "toUpperASCII c =
     (let n = (of_char c :: nat) in if 97 \<le> n \<and> n \<le> 122 then char_of (n - 32) else c)"

fun foldName :: "string \<Rightarrow> string" where
  "foldName (a # b # cs) =
     (if a = CHR 0xC5 \<and> b = CHR 0xBF then CHR ''S'' # foldName cs
      else toUpperASCII a # foldName (b # cs))"
| "foldName [a] = [toUpperASCII a]"
| "foldName [] = []"

definition matchesField :: "string \<Rightarrow> bool" where
  "matchesField key =
     (key = ''releaseNumber'' \<or> foldName key = foldName ''releaseNumber'')"

definition jsonKind :: "json \<Rightarrow> string" where
  "jsonKind v =
     (case v of JNull \<Rightarrow> ''null'' | JBool _ \<Rightarrow> ''bool'' | JNumber _ \<Rightarrow> ''number''
      | JString _ \<Rightarrow> ''string'' | JArray _ \<Rightarrow> ''array'' | JObject _ \<Rightarrow> ''object'')"

text \<open>The text of \<open>json.UnmarshalTypeError\<close>, for the field and for the whole value.\<close>

definition fieldTypeError :: "json \<Rightarrow> string" where
  "fieldTypeError v =
     ''json: cannot unmarshal '' @ jsonKind v @
     '' into Go struct field MinimalAPIResponse.releaseNumber of type string''"

definition valueTypeError :: "json \<Rightarrow> string" where
  "valueTypeError v =
     ''json: cannot unmarshal '' @ jsonKind v @
     '' into Go value of type main.MinimalAPIResponse''"

text \<open>The decoder keeps the first type error and goes on decoding.\<close>

definition saveError :: "string option \<Rightarrow> string \<Rightarrow> string option" where
  "saveError saved e = (case saved of None \<Rightarrow> Some e | Some e0 \<Rightarrow> Some e0)"

text \<open>
  One member of the object: a key that matches no field is skipped; a string is stored
  into the field; \<open>null\<close> leaves a string field as it is; any other value is a type
  error.
\<close>

definition storeMember ::
  "MinimalAPIResponse \<times> string option \<Rightarrow> string \<times> json \<Rightarrow> MinimalAPIResponse \<times> string option"
where
  "storeMember st m =
     (case st of (r, saved) \<Rightarrow>
      (case m of (key, v) \<Rightarrow>
        if matchesField key then
          (case v of
             JString s \<Rightarrow> (r\<lparr>ReleaseNumber := s\<rparr>, saved)
           | JNull \<Rightarrow> (r, saved)
           | _ \<Rightarrow> (r, saveError saved (fieldTypeError v)))
        else (r, saved)))"

text \<open>
  Storing a JSON value into the struct: an object member by member in their order,
  \<open>null\<close> as no change, anything else a type error.
\<close>

definition unmarshal ::
  "json \<Rightarrow> MinimalAPIResponse \<Rightarrow> MinimalAPIResponse \<times> string option"
where
  "unmarshal v r =
     (case v of
        JObject ms \<Rightarrow> foldl storeMember (r, None) ms
      | JNull \<Rightarrow> (r, None)
      | _ \<Rightarrow> (r, Some (valueTypeError v)))"

definition Decode ::
  "body \<Rightarrow> MinimalAPIResponse \<Rightarrow> MinimalAPIResponse \<times> string option"
where
  "Decode b r = (case b of BodyError e \<Rightarrow> (r, Some e) | BodyValue v \<Rightarrow> unmarshal v r)"

text \<open>The three errors \<open>fetchStatus\<close> builds with \<open>fmt.Errorf\<close>, and their texts.\<close>

datatype error = FetchFailed string | NonOKStatus string | DecodeFailed string

fun Error :: "error \<Rightarrow> string" where
  "Error (FetchFailed err) = ''failed to fetch status: '' @ err"
| "Error (NonOKStatus status) = ''API returned non-OK status: '' @ status"
| "Error (DecodeFailed err) = ''failed to decode response: '' @ err"

definition statusURL :: "string \<Rightarrow> string" where
  "statusURL instance =
     ''https://status.salesforce.com/api/instances/'' @ instance @
     ''/status/preview?locale=en''"

definition StatusOK :: int where
  "StatusOK = 200"

text \<open>The part of \<open>fetchStatus\<close> after the status check: decode, then return the field.\<close>

definition decodeResponse :: "Response \<Rightarrow> error + string" where
  "decodeResponse resp =
     (case Decode (Body resp) \<lparr>ReleaseNumber = []\<rparr> of
        (apiResponse, Some err) \<Rightarrow> Inl (DecodeFailed err)
      | (apiResponse, None) \<Rightarrow> Inr (ReleaseNumber apiResponse))"

definition fetchStatus :: "(string \<Rightarrow> getResult) \<Rightarrow> string \<Rightarrow> error + string" where
  "fetchStatus get instance =
     (case get (statusURL instance) of
        GetError err \<Rightarrow> Inl (FetchFailed err)
      | GetResponse resp \<Rightarrow>
          if StatusCode resp \<noteq> StatusOK then Inl (NonOKStatus (Status resp))
          else decodeResponse resp)"

section \<open>The comparator\<close>

definition errorMessage :: "string \<Rightarrow> error \<Rightarrow> string" where
  "errorMessage instance err =
     ''Error fetching status for instance '' @ instance @ '': '' @ Error err"

definition mismatchMessage :: "string \<Rightarrow> string \<Rightarrow> string \<Rightarrow> string" where
  "mismatchMessage instance expectedVersion releaseNumber =
     ''Release number mismatch for instance '' @ instance @ '': expected '' @
     expectedVersion @ '', got '' @ releaseNumber"

definition matchMessage :: "string \<Rightarrow> string \<Rightarrow> string" where
  "matchMessage instance releaseNumber =
     ''Release number matches for instance '' @ instance @ '': '' @ releaseNumber"

text \<open>
  The message \<open>compareReleaseNumbers\<close> writes to the channel. The write itself and the
  deferred \<open>wg.Done()\<close> are steps of the goroutine below.
\<close>

definition compareReleaseNumbers :: "(string \<Rightarrow> getResult) \<Rightarrow> string \<Rightarrow> string \<Rightarrow> string" where
  "compareReleaseNumbers get instance expectedVersion =
     (case fetchStatus get instance of
        Inl err \<Rightarrow> errorMessage instance err
      | Inr releaseNumber \<Rightarrow>
          if releaseNumber \<noteq> expectedVersion
          then mismatchMessage instance expectedVersion releaseNumber
          else matchMessage instance releaseNumber)"

section \<open>The aggregator\<close>

text \<open>\<open>processResults\<close> over the messages the channel delivers until it is closed.\<close>

definition checkResult :: "bool \<Rightarrow> string \<Rightarrow> bool" where
  "checkResult healthy result = (if Contains result ''mismatch'' then False else healthy)"

fun processResults_loop :: "bool \<Rightarrow> string list \<Rightarrow> bool" where
  "processResults_loop healthy [] = healthy"
| "processResults_loop healthy (result # rest) =
     processResults_loop (checkResult healthy result) rest"

definition processResults :: "string list \<Rightarrow> bool" where
  "processResults rs = processResults_loop True rs"

section \<open>The process: main, the comparator goroutines and the closer goroutine\<close>

text \<open>
  \<open>main\<close> starts one goroutine per instance and one that waits for the \<open>WaitGroup\<close> and
  closes the channel, then drains the channel in \<open>processResults\<close>. The goroutines run
  interleaved in an order the scheduler chooses, so the process is a transition system:
  a state holds the program point of every goroutine and the shared objects, and a step
  runs one goroutine up to its next operation on a shared object.

  Program points of a comparator goroutine: before \<open>fetchStatus\<close>; before the channel
  write, holding the message; before the deferred \<open>wg.Done()\<close>; returned.
\<close>

datatype workerPC = AtFetch | AtSend string | AtDone | Returned

text \<open>The closer goroutine: not started; at \<open>wg.Wait()\<close>; at \<open>close(results)\<close>; returned.\<close>

datatype closerPC = NotStarted | AtWait | AtClose | CloserReturned

text \<open>
  \<open>main\<close>: in the \<open>for\<close> loop with the instances still to start (the \<open>go func\<close> of the
  closer follows the last one); in the \<open>range\<close> loop of \<open>processResults\<close>; exited with a
  code (the process is over, whatever the goroutines were doing).
\<close>

datatype mainPC = Spawning "string list" | Draining | Exited int

record state =
  mainPC :: mainPC
  workers :: "(string \<times> workerPC) list"
  closer :: closerPC
  wgCounter :: int
  chanBuf :: "string list"
  chanCap :: nat
  chanClosed :: bool
  exitHealthy :: bool
  requests :: "string list"
  drained :: "string list"

text \<open>
  \<open>requests\<close> lists the URLs passed to \<open>http.Get\<close> so far and \<open>drained\<close> the messages
  \<open>processResults\<close> has read (and logged) so far; the program keeps neither.

  A Go panic (a write to a closed channel, closing a closed channel, a negative
  \<open>WaitGroup\<close> counter) ends the process with exit code 2.
\<close>

definition panic :: "state \<Rightarrow> state" where
  "panic s = s\<lparr>mainPC := Exited 2\<rparr>"

text \<open>
  Lines 59 to 76 of \<open>main\<close>, from the values of the two flags: the two checks, each
  ending in \<open>os.Exit(1)\<close>, then the empty \<open>WaitGroup\<close> and the channel of capacity
  \<open>len(instances)\<close>.
\<close>

definition initial :: "mainPC \<Rightarrow> nat \<Rightarrow> state" where
  "initial pc n =
     \<lparr>mainPC = pc, workers = [], closer = NotStarted, wgCounter = 0, chanBuf = [],
      chanCap = n, chanClosed = False, exitHealthy = True, requests = [], drained = []\<rparr>"

definition start :: "string \<Rightarrow> string \<Rightarrow> state" where
  "start instanceFlag versionFlag =
     (if instanceFlag = [] \<or> versionFlag = [] then initial (Exited 1) 0
      else
        let instances = parseInstances instanceFlag in
        if length instances = 0 then initial (Exited 1) 0
        else initial (Spawning instances) (length instances))"

text \<open>
  A step of \<open>main\<close>. In the \<open>for\<close> loop: \<open>wg.Add(1)\<close> and the \<open>go\<close> statement. After it:
  start the closer and enter \<open>processResults\<close>. In \<open>processResults\<close>: receive a message
  (log it, test it for \<open>"mismatch"\<close>); when the channel is empty and closed the loop
  ends and \<open>main\<close> exits, with 1 if \<open>processResults\<close> returned false; when it is empty and
  open \<open>main\<close> is blocked.
\<close>

definition stepMain :: "state \<Rightarrow> state option" where
  "stepMain s =
     (case mainPC s of
        Spawning (instance # rest) \<Rightarrow>
          Some (s\<lparr>mainPC := Spawning rest, wgCounter := wgCounter s + 1,
                  workers := workers s @ [(instance, AtFetch)]\<rparr>)
      | Spawning [] \<Rightarrow> Some (s\<lparr>mainPC := Draining, closer := AtWait\<rparr>)
      | Draining \<Rightarrow>
          (case chanBuf s of
             result # rest \<Rightarrow>
               Some (s\<lparr>chanBuf := rest, drained := drained s @ [result],
                       exitHealthy := checkResult (exitHealthy s) result\<rparr>)
           | [] \<Rightarrow>
               if chanClosed s
               then Some (s\<lparr>mainPC := Exited (if \<not> exitHealthy s then 1 else 0)\<rparr>)
               else None)
      | Exited code \<Rightarrow> None)"

text \<open>
  A step of the \<open>j\<close>-th comparator goroutine, \<open>get\<close> being what \<open>http.Get\<close> answers to it.
  The channel write blocks while the buffer is full.
\<close>

definition stepWorker :: "(string \<Rightarrow> getResult) \<Rightarrow> string \<Rightarrow> nat \<Rightarrow> state \<Rightarrow> state option" where
  "stepWorker get expectedVersion j s =
     (if j < length (workers s) then
        (case workers s ! j of (instance, pc) \<Rightarrow>
          (case pc of
             AtFetch \<Rightarrow>
               Some (s\<lparr>requests := requests s @ [statusURL instance],
                       workers := (workers s)[j := (instance,
                         AtSend (compareReleaseNumbers get instance expectedVersion))]\<rparr>)
           | AtSend message \<Rightarrow>
               if chanClosed s then Some (panic s)
               else if length (chanBuf s) < chanCap s
               then Some (s\<lparr>chanBuf := chanBuf s @ [message],
                             workers := (workers s)[j := (instance, AtDone)]\<rparr>)
               else None
           | AtDone \<Rightarrow>
               if wgCounter s - 1 < 0 then Some (panic s)
               else Some (s\<lparr>wgCounter := wgCounter s - 1,
                             workers := (workers s)[j := (instance, Returned)]\<rparr>)
           | Returned \<Rightarrow> None))
      else None)"

text \<open>A step of the closer: \<open>wg.Wait()\<close> blocks until the counter is zero.\<close>

definition stepCloser :: "state \<Rightarrow> state option" where
  "stepCloser s =
     (case closer s of
        NotStarted \<Rightarrow> None
      | AtWait \<Rightarrow> if wgCounter s = 0 then Some (s\<lparr>closer := AtClose\<rparr>) else None
      | AtClose \<Rightarrow>
          if chanClosed s then Some (panic s)
          else Some (s\<lparr>chanClosed := True, closer := CloserReturned\<rparr>)
      | CloserReturned \<Rightarrow> None)"

text \<open>
  The scheduler picks a goroutine; \<open>None\<close> when it cannot run (blocked, returned, not
  started, or the process has exited). The network is \<open>net\<close>: \<open>net j\<close> is what
  \<open>http.Get\<close> answers to the \<open>j\<close>-th goroutine, so two requests for one URL may be
  answered differently. Every call of \<open>http.Get\<close> is taken to return.
\<close>

datatype thread = MainThread | Worker nat | Closer

definition step ::
  "(nat \<Rightarrow> string \<Rightarrow> getResult) \<Rightarrow> string \<Rightarrow> thread \<Rightarrow> state \<Rightarrow> state option"
where
  "step net expectedVersion t s =
     (case mainPC s of
        Exited code \<Rightarrow> None
      | _ \<Rightarrow>
        (case t of
           MainThread \<Rightarrow> stepMain s
         | Worker j \<Rightarrow> stepWorker (net j) expectedVersion j s
         | Closer \<Rightarrow> stepCloser s))"

text \<open>Running a schedule: \<open>None\<close> when it asks for a step that cannot be taken.\<close>

fun run ::
  "(nat \<Rightarrow> string \<Rightarrow> getResult) \<Rightarrow> string \<Rightarrow> thread list \<Rightarrow> state \<Rightarrow> state option"
where
  "run net expectedVersion [] s = Some s"
| "run net expectedVersion (t # ts) s =
     (case step net expectedVersion t s of
        None \<Rightarrow> None
      | Some s' \<Rightarrow> run net expectedVersion ts s')"

text \<open>The program on the two flag values, the network and a schedule.\<close>

definition main ::
  "(nat \<Rightarrow> string \<Rightarrow> getResult) \<Rightarrow> string \<Rightarrow> string \<Rightarrow> thread list \<Rightarrow> state option"
where
  "main net instanceFlag versionFlag schedule =
     run net versionFlag schedule (start instanceFlag versionFlag)"

definition exited :: "state \<Rightarrow> bool" where
  "exited s = (case mainPC s of Exited code \<Rightarrow> True | _ \<Rightarrow> False)"

definition exitCode :: "state \<Rightarrow> int option" where
  "exitCode s = (case mainPC s of Exited code \<Rightarrow> Some code | _ \<Rightarrow> None)"

text \<open>
  The schedule that starts everything, runs the comparators one after the other,
  closes the channel and drains it, for \<open>n\<close> instances.
\<close>

definition sequential :: "nat \<Rightarrow> thread list" where
  "sequential n =
     replicate (Suc n) MainThread @
     concat (map (\<lambda>j. [Worker j, Worker j, Worker j]) [0..<n]) @
     [Closer, Closer] @ replicate (Suc n) MainThread"

section \<open>What holds in every state of a run\<close>

text \<open>
  Counted over the comparator goroutines started so far: how many have not returned; the
  messages of those past their channel write (\<open>msg j\<close> being the message of the \<open>j\<close>-th);
  the URLs of those past their \<open>http.Get\<close>.
\<close>

definition running :: "(string \<times> workerPC) list \<Rightarrow> nat" where
  "running ws = (\<Sum>j<length ws. if snd (ws ! j) = Returned then 0 else 1)"

definition produced :: "(nat \<Rightarrow> string) \<Rightarrow> (string \<times> workerPC) list \<Rightarrow> string multiset" where
  "produced msg ws =
     (\<Sum>j<length ws. if snd (ws ! j) = AtDone \<or> snd (ws ! j) = Returned then {#msg j#} else {#})"

definition requested :: "(string \<times> workerPC) list \<Rightarrow> string multiset" where
  "requested ws =
     (\<Sum>j<length ws. if snd (ws ! j) = AtFetch then {#} else {#statusURL (fst (ws ! j))#})"

text \<open>The message of the \<open>j\<close>-th goroutine, started on the \<open>j\<close>-th instance.\<close>

definition message ::
  "(nat \<Rightarrow> string \<Rightarrow> getResult) \<Rightarrow> string \<Rightarrow> string list \<Rightarrow> nat \<Rightarrow> string"
where
  "message net expectedVersion instances j =
     compareReleaseNumbers (net j) (instances ! j) expectedVersion"

text \<open>
  The invariant of a run on the instances \<open>instances\<close>: the goroutines started are those
  of the first instances, in order; the \<open>WaitGroup\<close> counts the goroutines that have not
  returned; the messages read and those in the channel are the messages of the
  goroutines past their write; the closer passes \<open>wg.Wait()\<close> only when all have
  returned, and the channel is closed by it alone; \<open>main\<close> exits only from the \<open>range\<close>
  loop over a closed and empty channel, with the code \<open>processResults\<close> gives.
\<close>

definition invariant ::
  "(nat \<Rightarrow> string \<Rightarrow> getResult) \<Rightarrow> string \<Rightarrow> string list \<Rightarrow> state \<Rightarrow> bool"
where
  "invariant net expectedVersion instances s =
     (chanCap s = length instances \<and>
      length (workers s) \<le> length instances \<and>
      map fst (workers s) = take (length (workers s)) instances \<and>
      (case mainPC s of
         Spawning rest \<Rightarrow>
           rest = drop (length (workers s)) instances \<and> closer s = NotStarted
       | Draining \<Rightarrow> length (workers s) = length instances \<and> closer s \<noteq> NotStarted
       | Exited code \<Rightarrow>
           length (workers s) = length instances \<and> chanBuf s = [] \<and>
           closer s = CloserReturned \<and> code = (if exitHealthy s then 0 else 1)) \<and>
      wgCounter s = int (running (workers s)) \<and>
      (\<forall>j<length (workers s). \<forall>m. snd (workers s ! j) = AtSend m \<longrightarrow>
         m = message net expectedVersion instances j) \<and>
      mset (drained s) + mset (chanBuf s) =
        produced (message net expectedVersion instances) (workers s) \<and>
      (closer s = AtClose \<or> closer s = CloserReturned \<longrightarrow> running (workers s) = 0) \<and>
      (chanClosed s \<longleftrightarrow> closer s = CloserReturned) \<and>
      exitHealthy s = processResults (drained s) \<and>
      mset (requests s) = requested (workers s))"

text \<open>
  A bound on the number of steps left: every step makes it smaller, so every run ends.
\<close>

definition workerWeight :: "string \<times> workerPC \<Rightarrow> nat" where
  "workerWeight w =
     (case snd w of AtFetch \<Rightarrow> 5 | AtSend m \<Rightarrow> 4 | AtDone \<Rightarrow> 1 | Returned \<Rightarrow> 0)"

definition stepsLeft :: "state \<Rightarrow> nat" where
  "stepsLeft s =
     (case mainPC s of Spawning rest \<Rightarrow> 4 + 6 * length rest | Draining \<Rightarrow> 1 | Exited code \<Rightarrow> 0) +
     sum_list (map workerWeight (workers s)) +
     (case closer s of NotStarted \<Rightarrow> 0 | AtWait \<Rightarrow> 2 | AtClose \<Rightarrow> 1 | CloserReturned \<Rightarrow> 0) +
     length (chanBuf s)"

section \<open>Example environments\<close>

text \<open>A status endpoint answering \<open>200 OK\<close> with the body \<open>{"releaseNumber":"v1"}\<close>.\<close>

definition body_v1 :: body where
  "body_v1 = BodyValue (JObject [(''releaseNumber'', JString ''v1'')])"

definition get_ok_v1 :: "string \<Rightarrow> getResult" where
  "get_ok_v1 url = GetResponse \<lparr>StatusCode = 200, Status = ''200 OK'', Body = body_v1\<rparr>"

text \<open>One answering \<open>503 Service Unavailable\<close>, with an empty body.\<close>

definition get_unavailable :: "string \<Rightarrow> getResult" where
  "get_unavailable url =
     GetResponse \<lparr>StatusCode = 503, Status = ''503 Service Unavailable'',
       Body = BodyError ''EOF''\<rparr>"

text \<open>One answering \<open>201 Created\<close> with the same body as the first.\<close>

definition created_v1 :: Response where
  "created_v1 = \<lparr>StatusCode = 201, Status = ''201 Created'', Body = body_v1\<rparr>"

definition get_created_v1 :: "string \<Rightarrow> getResult" where
  "get_created_v1 url = GetResponse created_v1"

text \<open>One answering \<open>200 OK\<close> with the body \<open>{}\<close>.\<close>

definition empty_object :: Response where
  "empty_object = \<lparr>StatusCode = 200, Status = ''200 OK'', Body = BodyValue (JObject [])\<rparr>"

definition get_empty_object :: "string \<Rightarrow> getResult" where
  "get_empty_object url = GetResponse empty_object"

text \<open>An endpoint that answers every request with the same response; a \<open>200\<close> response.\<close>

definition answer :: "Response \<Rightarrow> string \<Rightarrow> getResult" where
  "answer resp url = GetResponse resp"

definition ok :: "body \<Rightarrow> Response" where
  "ok b = \<lparr>StatusCode = 200, Status = ''200 OK'', Body = b\<rparr>"

text \<open>
  Networks: every goroutine is answered \<open>200 OK\<close> with \<open>{"releaseNumber":"v1"}\<close>; the
  same but for the first goroutine, answered \<open>503\<close>; the same but for the second.
\<close>

definition net_ok_v1 :: "nat \<Rightarrow> string \<Rightarrow> getResult" where
  "net_ok_v1 j = get_ok_v1"

definition net_first_unavailable :: "nat \<Rightarrow> string \<Rightarrow> getResult" where
  "net_first_unavailable j = (if j = 0 then get_unavailable else get_ok_v1)"

definition net_second_unavailable :: "nat \<Rightarrow> string \<Rightarrow> getResult" where
  "net_second_unavailable j = (if j = 1 then get_unavailable else get_ok_v1)"

text \<open>The network on which every goroutine is answered \<open>200 OK\<close> with the body \<open>{}\<close>.\<close>

definition net_empty_object :: "nat \<Rightarrow> string \<Rightarrow> getResult" where
  "net_empty_object j = get_empty_object"

text \<open>
  A schedule for two instances in which the second comparator writes first and \<open>main\<close>
  reads its message before the first comparator has written.
\<close>

definition interleaved :: "thread list" where
  "interleaved =
     [MainThread, Worker 0, MainThread, Worker 1, MainThread, Worker 1, MainThread,
      Worker 0, Worker 0, Worker 1, Closer, MainThread, Closer, MainThread]"

section \<open>Properties of the string functions\<close>

text \<open>\<open>Contains\<close> is the occurrence of a contiguous block.\<close>

lemma Contains_iff: "Contains s sub \<longleftrightarrow> (\<exists>a b. s = a @ sub @ b)"
proof (induction s)
  case Nil
  then show ?case by auto
next
  case (Cons c cs)
  show ?case
  proof
    assume "Contains (c # cs) sub"
    then consider "prefix sub (c # cs)" | "Contains cs sub" by auto
    then show "\<exists>a b. c # cs = a @ sub @ b"
    proof cases
      case 1
      then obtain b where "c # cs = sub @ b" by (auto simp: prefix_def)
      then have "c # cs = [] @ sub @ b" by simp
      then show ?thesis by blast
    next
      case 2
      with Cons.IH obtain a b where "cs = a @ sub @ b" by blast
      then have "c # cs = (c # a) @ sub @ b" by simp
      then show ?thesis by blast
    qed
  next
    assume "\<exists>a b. c # cs = a @ sub @ b"
    then obtain a b where ab: "c # cs = a @ sub @ b" by blast
    show "Contains (c # cs) sub"
    proof (cases a)
      case Nil
      with ab have "prefix sub (c # cs)" by (simp add: prefix_def)
      then show ?thesis by simp
    next
      case (Cons x a')
      with ab have "cs = a' @ sub @ b" by simp
      with Cons.IH have "Contains cs sub" by blast
      then show ?thesis by simp
    qed
  qed
qed

lemma Contains_append: "Contains s sub \<Longrightarrow> Contains (a @ s @ b) sub"
proof -
  assume "Contains s sub"
  then obtain p q where "s = p @ sub @ q" by (auto simp: Contains_iff)
  then have "a @ s @ b = (a @ p) @ sub @ (q @ b)" by simp
  then show ?thesis unfolding Contains_iff by blast
qed

lemma Contains_sep:
  assumes "c \<notin> set sub"
  shows "Contains (a @ c # b) sub \<longleftrightarrow> Contains a sub \<or> Contains b sub"
proof
  assume "Contains (a @ c # b) sub"
  then obtain p q where pq: "a @ c # b = p @ sub @ q" by (auto simp: Contains_iff)
  then consider us where "a = p @ us" "us @ c # b = sub @ q"
    | us where "a @ us = p" "c # b = us @ sub @ q"
    by (auto simp: append_eq_append_conv2)
  then show "Contains a sub \<or> Contains b sub"
  proof cases
    case 1
    from 1(2) consider vs where "us = sub @ vs"
      | vs where "us @ vs = sub" "c # b = vs @ q"
      by (auto simp: append_eq_append_conv2)
    then show ?thesis
    proof cases
      case 1
      with \<open>a = p @ us\<close> have "a = p @ sub @ vs" by simp
      then show ?thesis unfolding Contains_iff by blast
    next
      case 2
      show ?thesis
      proof (cases vs)
        case Nil
        with 2 \<open>a = p @ us\<close> have "a = p @ sub @ []" by simp
        then show ?thesis unfolding Contains_iff by blast
      next
        case (Cons v vs')
        with 2 have "c \<in> set sub" by auto
        with assms show ?thesis by simp
      qed
    qed
  next
    case 2
    show ?thesis
    proof (cases us)
      case Nil
      with 2 have "c # b = sub @ q" by simp
      with assms have "sub = []" by (cases sub) auto
      then have "a = [] @ sub @ a" by simp
      then show ?thesis unfolding Contains_iff by blast
    next
      case (Cons u us')
      with 2 have "b = us' @ sub @ q" by simp
      then show ?thesis unfolding Contains_iff by blast
    qed
  qed
next
  assume "Contains a sub \<or> Contains b sub"
  then show "Contains (a @ c # b) sub"
  proof
    assume "Contains a sub"
    then have "Contains ([] @ a @ (c # b)) sub" by (rule Contains_append)
    then show ?thesis by simp
  next
    assume "Contains b sub"
    then have "Contains ((a @ [c]) @ b @ []) sub" by (rule Contains_append)
    then show ?thesis by simp
  qed
qed

lemma mismatchMessage_Contains: "Contains (mismatchMessage i v r) ''mismatch''"
proof -
  have "Contains ''mismatch'' ''mismatch''" by simp
  then have "Contains (''Release number '' @ ''mismatch'' @ ('' for instance '' @ i @ '': expected '' @ v @ '', got '' @ r)) ''mismatch''"
    by (rule Contains_append)
  then show ?thesis by (simp add: mismatchMessage_def)
qed

lemma matchMessage_Contains:
  "Contains (matchMessage i r) ''mismatch'' \<longleftrightarrow> Contains i ''mismatch'' \<or> Contains r ''mismatch''"
proof -
  have "matchMessage i r = ''Release number matches for instance'' @ CHR '' '' # (i @ CHR '':'' # ([] @ CHR '' '' # r))"
    by (simp add: matchMessage_def)
  then show ?thesis
    by (simp only: Contains_sep [where sub = "''mismatch''"]) (simp add: Contains_sep)
qed

lemma errorMessage_Contains:
  "Contains (errorMessage i e) ''mismatch'' \<longleftrightarrow> Contains i ''mismatch'' \<or> Contains (Error e) ''mismatch''"
proof -
  have "errorMessage i e = ''Error fetching status for instance'' @ CHR '' '' # (i @ CHR '':'' # ([] @ CHR '' '' # Error e))"
    by (simp add: errorMessage_def)
  then show ?thesis
    by (simp add: Contains_sep)
qed

section \<open>The fetcher and the comparator\<close>

lemmas decode_defs = decodeResponse_def Decode_def unmarshal_def storeMember_def
  matchesField_def saveError_def

lemma fetch_unavailable:
  "fetchStatus get_unavailable i = Inl (NonOKStatus ''503 Service Unavailable'')"
  by (simp add: fetchStatus_def get_unavailable_def StatusOK_def)

lemma decode_body_v1:
  "Body resp = body_v1 \<Longrightarrow> decodeResponse resp = Inr ''v1''"
  by (simp add: decode_defs body_v1_def)

lemma fetch_ok_v1: "fetchStatus get_ok_v1 i = Inr ''v1''"
  by (simp add: fetchStatus_def get_ok_v1_def StatusOK_def decode_body_v1)

text \<open>
  C7. The comparator's message: on a fetch error, the instance and the error's text; on
  success the fetched version is compared with the expected one by equality of the
  strings; when they differ the message holds the instance, the expected and the fetched
  version and the word \<open>mismatch\<close>; when they are equal it holds the instance and the
  version and the word \<open>matches\<close>.
\<close>

theorem compareReleaseNumbers_messages:
  "(fetchStatus get instance = Inl err \<longrightarrow>
      compareReleaseNumbers get instance expectedVersion =
        ''Error fetching status for instance '' @ instance @ '': '' @ Error err) \<and>
   (fetchStatus get instance = Inr releaseNumber \<and> releaseNumber \<noteq> expectedVersion \<longrightarrow>
      compareReleaseNumbers get instance expectedVersion =
        ''Release number mismatch for instance '' @ instance @ '': expected '' @
        expectedVersion @ '', got '' @ releaseNumber) \<and>
   (fetchStatus get instance = Inr releaseNumber \<and> releaseNumber = expectedVersion \<longrightarrow>
      compareReleaseNumbers get instance expectedVersion =
        ''Release number matches for instance '' @ instance @ '': '' @ releaseNumber)"
  by (simp add: compareReleaseNumbers_def errorMessage_def mismatchMessage_def
      matchMessage_def)

theorem compareReleaseNumbers_messages_witness:
  "compareReleaseNumbers get_unavailable ''NA1'' ''v1'' =
     ''Error fetching status for instance NA1: API returned non-OK status: 503 Service Unavailable'' \<and>
   compareReleaseNumbers get_ok_v1 ''NA1'' ''v2'' =
     ''Release number mismatch for instance NA1: expected v2, got v1'' \<and>
   compareReleaseNumbers get_ok_v1 ''NA1'' ''v1'' =
     ''Release number matches for instance NA1: v1''"
proof -
  have e: "fetchStatus get_unavailable ''NA1'' = Inl (NonOKStatus ''503 Service Unavailable'')"
    by (rule fetch_unavailable)
  have m: "fetchStatus get_ok_v1 ''NA1'' = Inr ''v1''"
    by (rule fetch_ok_v1)
  have d: "''v1'' \<noteq> ''v2''" by simp
  from compareReleaseNumbers_messages
    [of get_unavailable "''NA1''" "NonOKStatus ''503 Service Unavailable''" "''v1''" "''v1''"] e
  have 1: "compareReleaseNumbers get_unavailable ''NA1'' ''v1'' =
     ''Error fetching status for instance NA1: API returned non-OK status: 503 Service Unavailable''"
    by simp
  from compareReleaseNumbers_messages
    [of get_ok_v1 "''NA1''" "FetchFailed []" "''v2''" "''v1''"] m d
  have 2: "compareReleaseNumbers get_ok_v1 ''NA1'' ''v2'' =
     ''Release number mismatch for instance NA1: expected v2, got v1''"
    by simp
  from compareReleaseNumbers_messages
    [of get_ok_v1 "''NA1''" "FetchFailed []" "''v1''" "''v1''"] m
  have 3: "compareReleaseNumbers get_ok_v1 ''NA1'' ''v1'' =
     ''Release number matches for instance NA1: v1''"
    by simp
  from 1 2 3 show ?thesis by simp
qed

text \<open>
  C8. A status endpoint that answers \<open>200\<close> with the body \<open>{"releaseNumber":"v1"}\<close>:
  \<open>fetchStatus\<close> returns \<open>"v1"\<close> and no error.
\<close>

theorem fetchStatus_roundtrip:
  assumes "get (statusURL instance) = GetResponse resp"
    and "StatusCode resp = 200"
    and "Body resp = BodyValue (JObject [(''releaseNumber'', JString ''v1'')])"
  shows "fetchStatus get instance = Inr ''v1''"
  using assms by (simp add: fetchStatus_def StatusOK_def decode_defs)

theorem fetchStatus_roundtrip_witness:
  "fetchStatus get_ok_v1 ''NA1'' = Inr ''v1''"
proof -
  have "get_ok_v1 (statusURL ''NA1'') =
      GetResponse \<lparr>StatusCode = 200, Status = ''200 OK'', Body = body_v1\<rparr>"
    by (simp add: get_ok_v1_def)
  then show ?thesis
    by (rule fetchStatus_roundtrip [of get_ok_v1 "''NA1''"]) (simp_all add: body_v1_def)
qed

text \<open>
  C5, as the code has it. A response whose status code is not 200 is an error that
  carries the status text, and no version is returned; that includes the other codes
  of the 2xx class. Only for 200 does \<open>fetchStatus\<close> go on to decode the body.
\<close>

theorem fetchStatus_status_check:
  assumes "get (statusURL instance) = GetResponse resp"
  shows "(StatusCode resp \<noteq> 200 \<longrightarrow>
            fetchStatus get instance = Inl (NonOKStatus (Status resp)) \<and>
            Error (NonOKStatus (Status resp)) =
              ''API returned non-OK status: '' @ Status resp) \<and>
         (StatusCode resp = 200 \<longrightarrow> fetchStatus get instance = decodeResponse resp)"
  using assms by (simp add: fetchStatus_def StatusOK_def)

theorem fetchStatus_status_check_witness:
  "fetchStatus get_unavailable ''NA1'' = Inl (NonOKStatus ''503 Service Unavailable'') \<and>
   Error (NonOKStatus ''503 Service Unavailable'') =
     ''API returned non-OK status: 503 Service Unavailable'' \<and>
   fetchStatus get_created_v1 ''NA1'' = Inl (NonOKStatus ''201 Created'') \<and>
   fetchStatus get_ok_v1 ''NA1'' = Inr ''v1''"
proof -
  have 1: "get_unavailable (statusURL ''NA1'') =
      GetResponse \<lparr>StatusCode = 503, Status = ''503 Service Unavailable'',
        Body = BodyError ''EOF''\<rparr>"
    by (simp add: get_unavailable_def)
  have 2: "get_created_v1 (statusURL ''NA1'') = GetResponse created_v1"
    by (simp add: get_created_v1_def)
  have 3: "get_ok_v1 (statusURL ''NA1'') =
      GetResponse \<lparr>StatusCode = 200, Status = ''200 OK'', Body = body_v1\<rparr>"
    by (simp add: get_ok_v1_def)
  from fetchStatus_status_check [of get_unavailable "''NA1''", OF 1]
    fetchStatus_status_check [of get_created_v1 "''NA1''", OF 2]
    fetchStatus_status_check [of get_ok_v1 "''NA1''", OF 3]
  show ?thesis by (simp add: created_v1_def decode_body_v1)
qed

text \<open>
  The claim as the specification states it fails for \<open>201 Created\<close>: a success status
  of the 2xx class, a body that decodes to \<open>"v1"\<close>, and \<open>fetchStatus\<close> returns the
  status error instead of decoding.
\<close>

theorem fetchStatus_2xx_counterexample:
  "200 \<le> StatusCode created_v1 \<and> StatusCode created_v1 < 300 \<and>
   get_created_v1 (statusURL ''NA1'') = GetResponse created_v1 \<and>
   decodeResponse created_v1 = Inr ''v1'' \<and>
   fetchStatus get_created_v1 ''NA1'' = Inl (NonOKStatus ''201 Created'') \<and>
   fetchStatus get_created_v1 ''NA1'' \<noteq> decodeResponse created_v1"
  by (simp add: fetchStatus_def StatusOK_def get_created_v1_def created_v1_def decode_body_v1)

subsection \<open>Decoding the body\<close>

lemma storeMember_other_key: "\<not> matchesField key \<Longrightarrow> storeMember st (key, v) = st"
  by (cases st) (simp add: storeMember_def)

lemma foldl_storeMember_filter:
  "foldl storeMember st ms = foldl storeMember st (filter (\<lambda>m. matchesField (fst m)) ms)"
proof (induction ms arbitrary: st)
  case Nil
  show ?case by simp
next
  case (Cons m ms)
  obtain key v where m: "m = (key, v)" by (cases m)
  show ?case
    using Cons.IH by (simp add: m storeMember_other_key)
qed

lemma foldl_storeMember_saved:
  "snd (foldl storeMember (r, Some e) ms) = Some e"
proof (induction ms arbitrary: r)
  case Nil
  show ?case by simp
next
  case (Cons m ms)
  obtain key v where m: "m = (key, v)" by (cases m)
  have "snd (storeMember (r, Some e) m) = Some e"
    by (cases v) (simp_all add: m storeMember_def saveError_def)
  then obtain r' where "storeMember (r, Some e) m = (r', Some e)"
    by (cases "storeMember (r, Some e) m") simp
  with Cons.IH show ?case by simp
qed

lemma foldl_storeMember_type_error:
  assumes "(key, v) \<in> set ms" and "matchesField key"
    and "v \<noteq> JNull" and "\<forall>s. v \<noteq> JString s"
  shows "snd (foldl storeMember (r, saved) ms) \<noteq> None"
  using assms(1)
proof (induction ms arbitrary: r saved)
  case Nil
  then show ?case by simp
next
  case (Cons m ms)
  obtain r' saved' where st: "storeMember (r, saved) m = (r', saved')"
    by (cases "storeMember (r, saved) m")
  show ?case
  proof (cases "m = (key, v)")
    case True
    with assms(2-4) st obtain e where "saved' = Some e"
      by (cases v; cases saved) (auto simp: storeMember_def saveError_def)
    with st show ?thesis by (simp add: foldl_storeMember_saved)
  next
    case False
    with Cons.prems have "(key, v) \<in> set ms" by simp
    from Cons.IH [OF this] st show ?thesis by simp
  qed
qed

lemma foldl_storeMember_no_field:
  assumes "\<forall>m \<in> set ms. \<not> matchesField (fst m)"
  shows "foldl storeMember st ms = st"
proof -
  from assms have "filter (\<lambda>m. matchesField (fst m)) ms = []"
    by (simp add: filter_empty_conv)
  with foldl_storeMember_filter [of st ms] show ?thesis by simp
qed

lemma decodeResponse_empty_object: "decodeResponse empty_object = Inr []"
  by (simp add: decode_defs empty_object_def)

text \<open>
  C6, as the code has it. The body of a \<open>200\<close> response: members other than
  \<open>releaseNumber\<close> are ignored; a body that cannot be read as JSON is a decode error;
  a \<open>releaseNumber\<close> member that is neither a string nor \<open>null\<close> is a decode error, and
  so is a value that is neither an object nor \<open>null\<close>; an object with no
  \<open>releaseNumber\<close> member is no error, \<open>fetchStatus\<close> returns the empty string.
\<close>

theorem fetchStatus_decode:
  assumes "get (statusURL instance) = GetResponse resp" and "StatusCode resp = 200"
  shows
    "(\<forall>ms. Body resp = BodyValue (JObject ms) \<longrightarrow>
        fetchStatus get instance =
          decodeResponse (resp\<lparr>Body := BodyValue (JObject
            (filter (\<lambda>m. matchesField (fst m)) ms))\<rparr>)) \<and>
     (\<forall>ms ms' r. Body resp = BodyValue (JObject (ms @ (''releaseNumber'', JString r) # ms')) \<and>
        (\<forall>m \<in> set (ms @ ms'). \<not> matchesField (fst m)) \<longrightarrow>
        fetchStatus get instance = Inr r) \<and>
     (\<forall>e. Body resp = BodyError e \<longrightarrow>
        fetchStatus get instance = Inl (DecodeFailed e)) \<and>
     (\<forall>ms key v. Body resp = BodyValue (JObject ms) \<and> (key, v) \<in> set ms \<and>
        matchesField key \<and> v \<noteq> JNull \<and> (\<forall>s. v \<noteq> JString s) \<longrightarrow>
        (\<exists>e. fetchStatus get instance = Inl (DecodeFailed e))) \<and>
     (\<forall>v. Body resp = BodyValue v \<and> v \<noteq> JNull \<and> (\<forall>ms. v \<noteq> JObject ms) \<longrightarrow>
        fetchStatus get instance = Inl (DecodeFailed (valueTypeError v))) \<and>
     (\<forall>ms. Body resp = BodyValue (JObject ms) \<and>
        (\<forall>m \<in> set ms. \<not> matchesField (fst m)) \<longrightarrow>
        fetchStatus get instance = Inr [])"
proof -
  have f: "fetchStatus get instance = decodeResponse resp"
    using assms by (simp add: fetchStatus_def StatusOK_def)
  have 1: "decodeResponse resp =
      decodeResponse (resp\<lparr>Body := BodyValue (JObject (filter (\<lambda>m. matchesField (fst m)) ms))\<rparr>)"
    if "Body resp = BodyValue (JObject ms)" for ms
    using that foldl_storeMember_filter [of "(\<lparr>ReleaseNumber = []\<rparr>, None)" ms]
    by (simp add: decodeResponse_def Decode_def unmarshal_def)
  have 2: "decodeResponse resp = Inr r"
    if "Body resp = BodyValue (JObject (ms @ (''releaseNumber'', JString r) # ms'))"
      and "\<forall>m \<in> set (ms @ ms'). \<not> matchesField (fst m)" for ms ms' r
  proof -
    from that(2) have "\<forall>m \<in> set ms. \<not> matchesField (fst m)"
      and "\<forall>m \<in> set ms'. \<not> matchesField (fst m)" by auto
    then show ?thesis
      using that(1)
      by (simp add: decodeResponse_def Decode_def unmarshal_def foldl_storeMember_no_field
          storeMember_def matchesField_def)
  qed
  have 3: "decodeResponse resp = Inl (DecodeFailed e)" if "Body resp = BodyError e" for e
    using that by (simp add: decodeResponse_def Decode_def)
  have 4: "\<exists>e. decodeResponse resp = Inl (DecodeFailed e)"
    if "Body resp = BodyValue (JObject ms)" and "(key, v) \<in> set ms" and "matchesField key"
      and "v \<noteq> JNull" and "\<forall>s. v \<noteq> JString s" for ms key v
  proof -
    from foldl_storeMember_type_error [OF that(2-5), of "\<lparr>ReleaseNumber = []\<rparr>" None]
    obtain r e where "foldl storeMember (\<lparr>ReleaseNumber = []\<rparr>, None) ms = (r, Some e)"
      by (cases "foldl storeMember (\<lparr>ReleaseNumber = []\<rparr>, None) ms") auto
    with that(1) show ?thesis
      by (simp add: decodeResponse_def Decode_def unmarshal_def)
  qed
  have 5: "decodeResponse resp = Inl (DecodeFailed (valueTypeError v))"
    if "Body resp = BodyValue v" and "v \<noteq> JNull" and "\<forall>ms. v \<noteq> JObject ms" for v
    using that by (cases v) (simp_all add: decodeResponse_def Decode_def unmarshal_def)
  have 6: "decodeResponse resp = Inr []"
    if "Body resp = BodyValue (JObject ms)" and "\<forall>m \<in> set ms. \<not> matchesField (fst m)" for ms
    using that
    by (simp add: decodeResponse_def Decode_def unmarshal_def foldl_storeMember_no_field)
  show ?thesis
    unfolding f using 1 2 3 4 5 6 by blast
qed


theorem fetchStatus_decode_witness:
  "fetchStatus (answer (ok (BodyValue (JObject
      [(''location'', JString ''NA''), (''releaseNumber'', JString ''v1''),
       (''status'', JObject [])])))) ''NA1'' = Inr ''v1'' \<and>
   fetchStatus (answer (ok (BodyError ''unexpected EOF''))) ''NA1'' =
     Inl (DecodeFailed ''unexpected EOF'') \<and>
   (\<exists>e. fetchStatus (answer (ok (BodyValue (JObject
      [(''releaseNumber'', JNumber ''42'')])))) ''NA1'' = Inl (DecodeFailed e)) \<and>
   fetchStatus (answer (ok (BodyValue (JArray [])))) ''NA1'' =
     Inl (DecodeFailed (valueTypeError (JArray []))) \<and>
   fetchStatus (answer (ok (BodyValue (JObject [(''location'', JString ''NA'')])))) ''NA1'' =
     Inr []"
proof -
  have a: "answer resp (statusURL ''NA1'') = GetResponse resp" for resp
    by (simp add: answer_def)
  have b: "StatusCode (ok b) = 200" and c: "Body (ok b) = b" for b
    by (simp_all add: ok_def)
  have l: "\<not> matchesField ''location''" and s: "\<not> matchesField ''status''"
    and r: "matchesField ''releaseNumber''"
    by code_simp+
  have 1: "fetchStatus (answer (ok (BodyValue (JObject
      ([(''location'', JString ''NA'')] @ (''releaseNumber'', JString ''v1'') #
       [(''status'', JObject [])]))))) ''NA1'' = Inr ''v1''"
    using fetchStatus_decode [of "answer (ok (BodyValue (JObject [(''location'', JString ''NA''), (''releaseNumber'', JString ''v1''), (''status'', JObject [])])))" "''NA1''" "ok (BodyValue (JObject [(''location'', JString ''NA''), (''releaseNumber'', JString ''v1''), (''status'', JObject [])]))", OF a b, unfolded c,
        THEN conjunct2, THEN conjunct1, rule_format,
        of "[(''location'', JString ''NA'')]" "''v1''" "[(''status'', JObject [])]"] l s
    by simp
  have 2: "fetchStatus (answer (ok (BodyError ''unexpected EOF''))) ''NA1'' =
     Inl (DecodeFailed ''unexpected EOF'')"
    using fetchStatus_decode [of "answer (ok (BodyError ''unexpected EOF''))" "''NA1''" "ok (BodyError ''unexpected EOF'')", OF a b, unfolded c] by blast
  have 3: "\<exists>e. fetchStatus (answer (ok (BodyValue (JObject
      [(''releaseNumber'', JNumber ''42'')])))) ''NA1'' = Inl (DecodeFailed e)"
    using fetchStatus_decode [of "answer (ok (BodyValue (JObject [(''releaseNumber'', JNumber ''42'')])))" "''NA1''" "ok (BodyValue (JObject [(''releaseNumber'', JNumber ''42'')]))", OF a b, unfolded c,
        THEN conjunct2, THEN conjunct2, THEN conjunct2, THEN conjunct1, rule_format,
        of "[(''releaseNumber'', JNumber ''42'')]" "''releaseNumber''" "JNumber ''42''"] r
    by simp
  have 4: "fetchStatus (answer (ok (BodyValue (JArray [])))) ''NA1'' =
     Inl (DecodeFailed (valueTypeError (JArray [])))"
    using fetchStatus_decode [of "answer (ok (BodyValue (JArray [])))" "''NA1''" "ok (BodyValue (JArray []))", OF a b, unfolded c] by simp
  have 5: "fetchStatus (answer (ok (BodyValue (JObject [(''location'', JString ''NA'')]))))
      ''NA1'' = Inr []"
    using fetchStatus_decode [of "answer (ok (BodyValue (JObject [(''location'', JString ''NA'')])))" "''NA1''" "ok (BodyValue (JObject [(''location'', JString ''NA'')]))", OF a b, unfolded c,
        THEN conjunct2, THEN conjunct2, THEN conjunct2, THEN conjunct2, THEN conjunct2,
        rule_format, of "[(''location'', JString ''NA'')]"] l
    by simp
  from 1 2 3 4 5 show ?thesis by simp
qed

text \<open>
  The claim as the specification states it fails for the body \<open>{}\<close>: the
  \<open>releaseNumber\<close> member is missing, and \<open>fetchStatus\<close> returns the empty string and no
  error.
\<close>

theorem fetchStatus_missing_field_counterexample:
  "get_empty_object (statusURL ''NA1'') = GetResponse empty_object \<and>
   StatusCode empty_object = 200 \<and>
   Body empty_object = BodyValue (JObject []) \<and>
   fetchStatus get_empty_object ''NA1'' = Inr []"
  by (simp add: fetchStatus_def StatusOK_def get_empty_object_def decodeResponse_empty_object)
    (simp add: empty_object_def)

section \<open>Parsing the instance list: properties\<close>

subsection \<open>Splitting\<close>

lemma Split_not_Nil: "Split s sep \<noteq> []"
  by (induction s) (auto split: list.splits)

lemma Split_join: "concat (map (\<lambda>p. p @ [sep]) (Split s sep)) = s @ [sep]"
  by (induction s) (auto split: list.splits)

lemma Split_no_sep: "p \<in> set (Split s sep) \<Longrightarrow> sep \<notin> set p"
  by (induction s arbitrary: p) (auto split: list.splits if_splits)

lemma Split_no_sep_id: "sep \<notin> set s \<Longrightarrow> Split s sep = [s]"
  by (induction s) auto

subsection \<open>Trimming\<close>

declare TrimLeft.simps [simp del] TrimRight.simps [simp del] whitespaceOnly.simps [simp del]

lemma leadingSpace_SomeD:
  "leadingSpace s = Some e \<Longrightarrow> e \<in> set whiteSpace \<and> (\<exists>t. s = e @ t)"
  by (auto simp: leadingSpace_def find_Some_iff prefix_def)

lemma trailingSpace_SomeD:
  "trailingSpace s = Some e \<Longrightarrow> e \<in> set whiteSpace \<and> (\<exists>t. s = t @ e)"
  by (auto simp: trailingSpace_def find_Some_iff suffix_def)

lemma leadingSpace_prefix:
  assumes "prefix t' t" and "leadingSpace t = None"
  shows "leadingSpace t' = None"
proof (rule ccontr)
  assume "leadingSpace t' \<noteq> None"
  then obtain e where "leadingSpace t' = Some e" by auto
  then have "e \<in> set whiteSpace" and "prefix e t'"
    by (auto simp: leadingSpace_def find_Some_iff)
  with assms(1) have "\<exists>e \<in> set whiteSpace. prefix e t" by (meson prefix_order.trans)
  with assms(2) show False by (auto simp: leadingSpace_def find_None_iff)
qed

lemma whiteSpace_prefix_free:
  assumes "x \<in> set whiteSpace" and "y \<in> set whiteSpace" and "prefix x y"
  shows "x = y"
proof -
  have "list_all (\<lambda>x. list_all (\<lambda>y. prefix x y \<longrightarrow> x = y) whiteSpace) whiteSpace"
    by code_simp
  with assms show ?thesis by (auto simp: list_all_iff)
qed

lemma leadingSpace_append:
  assumes "e \<in> set whiteSpace"
  shows "leadingSpace (e @ t) = Some e"
proof -
  from assms have "\<exists>x \<in> set whiteSpace. prefix x (e @ t)"
    by (rule bexI [rotated]) simp
  then obtain x where x: "leadingSpace (e @ t) = Some x"
    by (cases "leadingSpace (e @ t)") (auto simp: leadingSpace_def find_None_iff)
  then have xs: "x \<in> set whiteSpace" and "prefix x (e @ t)"
    by (auto simp: leadingSpace_def find_Some_iff)
  then have "prefix x e \<or> prefix e x"
    by (metis prefix_same_cases prefixI)
  with xs assms have "x = e" by (auto dest: whiteSpace_prefix_free)
  with x show ?thesis by simp
qed

lemma whitespaceOnly_Nil: "whitespaceOnly []"
  by (simp add: whitespaceOnly.simps)

lemma whitespaceOnly_Cons:
  "e \<in> set whiteSpace \<Longrightarrow> whitespaceOnly (e @ t) = whitespaceOnly t"
  by (subst whitespaceOnly.simps) (auto simp: leadingSpace_append whiteSpace_def)

lemma whitespaceOnly_append:
  "whitespaceOnly a \<Longrightarrow> whitespaceOnly b \<Longrightarrow> whitespaceOnly (a @ b)"
proof (induction a rule: whitespaceOnly.induct)
  case (1 s)
  show ?case
  proof (cases "s = []")
    case True
    with 1 show ?thesis by simp
  next
    case False
    with "1.prems"(1) obtain e where e: "leadingSpace s = Some e"
      and w: "whitespaceOnly (drop (length e) s)"
      by (subst (asm) whitespaceOnly.simps) (auto split: option.splits)
    from e obtain t where s: "s = e @ t" and ews: "e \<in> set whiteSpace"
      by (auto dest: leadingSpace_SomeD)
    from "1.IH" [OF e w "1.prems"(2)] s have "whitespaceOnly (t @ b)" by simp
    with ews s show ?thesis by (simp add: whitespaceOnly_Cons)
  qed
qed

lemma whitespaceOnly_rune: "e \<in> set whiteSpace \<Longrightarrow> whitespaceOnly e"
  using whitespaceOnly_Cons [of e "[]"] by (simp add: whitespaceOnly_Nil)

lemma TrimLeft_decomp:
  "\<exists>l. s = l @ TrimLeft s \<and> whitespaceOnly l"
proof (induction s rule: TrimLeft.induct)
  case (1 s)
  show ?case
  proof (cases "leadingSpace s")
    case None
    then have "TrimLeft s = s" by (subst TrimLeft.simps) simp
    then have "s = [] @ TrimLeft s \<and> whitespaceOnly []" by (simp add: whitespaceOnly_Nil)
    then show ?thesis by blast
  next
    case (Some e)
    from "1.IH" [OF Some] obtain l where l: "drop (length e) s = l @ TrimLeft (drop (length e) s)"
      and w: "whitespaceOnly l" by blast
    from Some obtain t where s: "s = e @ t" and ews: "e \<in> set whiteSpace"
      by (auto dest: leadingSpace_SomeD)
    from Some have T: "TrimLeft s = TrimLeft (drop (length e) s)"
      by (subst TrimLeft.simps) simp
    from l s T have "s = (e @ l) @ TrimLeft s" by simp
    moreover from w ews have "whitespaceOnly (e @ l)" by (simp add: whitespaceOnly_Cons)
    ultimately show ?thesis by blast
  qed
qed

lemma TrimLeft_no_leading: "leadingSpace (TrimLeft s) = None"
proof (induction s rule: TrimLeft.induct)
  case (1 s)
  show ?case
  proof (cases "leadingSpace s")
    case None
    then show ?thesis by (subst TrimLeft.simps) simp
  next
    case (Some e)
    from "1.IH" [OF Some] Some show ?thesis by (subst TrimLeft.simps) simp
  qed
qed

lemma TrimRight_decomp:
  "\<exists>r. s = TrimRight s @ r \<and> whitespaceOnly r"
proof (induction s rule: TrimRight.induct)
  case (1 s)
  show ?case
  proof (cases "trailingSpace s")
    case None
    then have "TrimRight s = s" by (subst TrimRight.simps) simp
    then have "s = TrimRight s @ [] \<and> whitespaceOnly []" by (simp add: whitespaceOnly_Nil)
    then show ?thesis by blast
  next
    case (Some e)
    from "1.IH" [OF Some] obtain r
      where r: "take (length s - length e) s = TrimRight (take (length s - length e) s) @ r"
      and w: "whitespaceOnly r" by blast
    from Some obtain t where s: "s = t @ e" and ews: "e \<in> set whiteSpace"
      by (auto dest: trailingSpace_SomeD)
    from Some have T: "TrimRight s = TrimRight (take (length s - length e) s)"
      by (subst TrimRight.simps) simp
    from s have "take (length s - length e) s = t" by simp
    with r s T have "s = TrimRight s @ (r @ e)" by simp
    moreover from w ews have "whitespaceOnly (r @ e)"
      by (simp add: whitespaceOnly_append whitespaceOnly_rune)
    ultimately show ?thesis by blast
  qed
qed

lemma TrimRight_no_trailing: "trailingSpace (TrimRight s) = None"
proof (induction s rule: TrimRight.induct)
  case (1 s)
  show ?case
  proof (cases "trailingSpace s")
    case None
    then show ?thesis by (subst TrimRight.simps) simp
  next
    case (Some e)
    from "1.IH" [OF Some] Some show ?thesis by (subst TrimRight.simps) simp
  qed
qed

lemma TrimSpace_decomp:
  "\<exists>l r. s = l @ TrimSpace s @ r \<and> whitespaceOnly l \<and> whitespaceOnly r"
proof -
  obtain l where l: "s = l @ TrimLeft s" "whitespaceOnly l"
    using TrimLeft_decomp by blast
  obtain r where r: "TrimLeft s = TrimRight (TrimLeft s) @ r" "whitespaceOnly r"
    using TrimRight_decomp by blast
  from l(1) r(1) have "s = l @ TrimSpace s @ r" by (simp add: TrimSpace_def)
  with l(2) r(2) show ?thesis by blast
qed

lemma TrimSpace_no_leading: "leadingSpace (TrimSpace s) = None"
proof -
  obtain r where "TrimLeft s = TrimRight (TrimLeft s) @ r"
    using TrimRight_decomp by blast
  then have "prefix (TrimSpace s) (TrimLeft s)"
    by (metis TrimSpace_def prefixI)
  then show ?thesis by (rule leadingSpace_prefix) (rule TrimLeft_no_leading)
qed

lemma TrimSpace_no_trailing: "trailingSpace (TrimSpace s) = None"
  by (simp add: TrimSpace_def TrimRight_no_trailing)

lemma TrimSpace_not_whitespaceOnly: "TrimSpace s \<noteq> [] \<Longrightarrow> \<not> whitespaceOnly (TrimSpace s)"
  by (subst whitespaceOnly.simps) (simp add: TrimSpace_no_leading)

lemma whitespaceOnly_TrimLeft: "whitespaceOnly s \<Longrightarrow> TrimLeft s = []"
proof (induction s rule: TrimLeft.induct)
  case (1 s)
  show ?case
  proof (cases "s = []")
    case True
    then show ?thesis by (subst TrimLeft.simps) (simp add: leadingSpace_def whiteSpace_def)
  next
    case False
    with "1.prems" obtain e where e: "leadingSpace s = Some e"
      and w: "whitespaceOnly (drop (length e) s)"
      by (subst (asm) whitespaceOnly.simps) (auto split: option.splits)
    from "1.IH" [OF e w] e show ?thesis by (subst TrimLeft.simps) simp
  qed
qed

lemma TrimRight_Nil: "TrimRight [] = []"
  by (subst TrimRight.simps) (simp add: trailingSpace_def whiteSpace_def)

lemma whitespaceOnly_TrimSpace: "whitespaceOnly s \<Longrightarrow> TrimSpace s = []"
  by (simp add: TrimSpace_def whitespaceOnly_TrimLeft TrimRight_Nil)

lemma whitespaceOnly_no_comma: "whitespaceOnly s \<Longrightarrow> CHR '','' \<notin> set s"
proof (induction s rule: whitespaceOnly.induct)
  case (1 s)
  show ?case
  proof (cases "s = []")
    case True
    then show ?thesis by simp
  next
    case False
    with "1.prems" obtain e where e: "leadingSpace s = Some e"
      and w: "whitespaceOnly (drop (length e) s)"
      by (subst (asm) whitespaceOnly.simps) (auto split: option.splits)
    from e obtain t where s: "s = e @ t" and ews: "e \<in> set whiteSpace"
      by (auto dest: leadingSpace_SomeD)
    from ews have "CHR '','' \<notin> set e" by (auto simp: whiteSpace_def)
    with "1.IH" [OF e w] s show ?thesis by simp
  qed
qed

subsection \<open>The instance list\<close>

lemma filterEmptyStrings_loop_eq:
  "filterEmptyStrings_loop filtered slice =
     filtered @ filter (\<lambda>t. t \<noteq> []) (map TrimSpace slice)"
  by (induction slice arbitrary: filtered) (simp_all add: Let_def)

lemma parseInstances_eq:
  "parseInstances s = filter (\<lambda>t. t \<noteq> []) (map TrimSpace (Split s (CHR '','')))"
  by (simp add: parseInstances_def filterEmptyStrings_def filterEmptyStrings_loop_eq)

lemma parseInstances_whitespaceOnly:
  assumes "whitespaceOnly s"
  shows "parseInstances s = []"
proof -
  from assms have "Split s (CHR '','') = [s]"
    by (simp add: whitespaceOnly_no_comma Split_no_sep_id)
  with assms show ?thesis by (simp add: parseInstances_eq whitespaceOnly_TrimSpace)
qed


text \<open>
  C3. \<open>parseInstances\<close> splits the flag on commas (the pieces hold no comma and,
  joined by commas, give the flag back), trims each piece (the piece is white space,
  the trimmed piece, white space, and the trimmed piece neither starts nor ends with
  white space), drops the pieces that are empty after trimming and keeps the others in
  their order. No element of the result is empty or made of white space only, and
  \<open>"a, ,b,,c "\<close> parses to \<open>["a","b","c"]\<close>.
\<close>

theorem parseInstances_spec:
  "parseInstances s = filter (\<lambda>t. t \<noteq> []) (map TrimSpace (Split s (CHR '',''))) \<and>
   concat (map (\<lambda>p. p @ '','') (Split s (CHR '',''))) = s @ '','' \<and>
   (\<forall>p \<in> set (Split s (CHR '','')).
      CHR '','' \<notin> set p \<and>
      (\<exists>l r. p = l @ TrimSpace p @ r \<and> whitespaceOnly l \<and> whitespaceOnly r) \<and>
      leadingSpace (TrimSpace p) = None \<and> trailingSpace (TrimSpace p) = None) \<and>
   (\<forall>e \<in> set (parseInstances s). e \<noteq> [] \<and> \<not> whitespaceOnly e) \<and>
   parseInstances ''a, ,b,,c '' = [''a'', ''b'', ''c'']"
proof (intro conjI ballI)
  show "parseInstances s = filter (\<lambda>t. t \<noteq> []) (map TrimSpace (Split s (CHR '','')))"
    by (rule parseInstances_eq)
  show "concat (map (\<lambda>p. p @ '','') (Split s (CHR '',''))) = s @ '',''"
    by (rule Split_join)
  show "parseInstances ''a, ,b,,c '' = [''a'', ''b'', ''c'']"
    by code_simp
next
  fix p assume "p \<in> set (Split s (CHR '',''))"
  then show "CHR '','' \<notin> set p" by (rule Split_no_sep)
  show "\<exists>l r. p = l @ TrimSpace p @ r \<and> whitespaceOnly l \<and> whitespaceOnly r"
    by (rule TrimSpace_decomp)
  show "leadingSpace (TrimSpace p) = None" by (rule TrimSpace_no_leading)
  show "trailingSpace (TrimSpace p) = None" by (rule TrimSpace_no_trailing)
next
  fix e assume "e \<in> set (parseInstances s)"
  then obtain p where e: "e = TrimSpace p" and ne: "e \<noteq> []"
    by (auto simp: parseInstances_eq)
  from ne show "e \<noteq> []" .
  from ne show "\<not> whitespaceOnly e"
    unfolding e by (rule TrimSpace_not_whitespaceOnly)
qed

theorem parseInstances_spec_witness:
  "Split ''a, ,b,,c '' (CHR '','') = [''a'', '' '', ''b'', [], ''c ''] \<and>
   map TrimSpace [''a'', '' '', ''b'', [], ''c ''] = [''a'', [], ''b'', [], ''c''] \<and>
   parseInstances ''a, ,b,,c '' = [''a'', ''b'', ''c''] \<and>
   \<not> whitespaceOnly ''a'' \<and> \<not> whitespaceOnly ''b'' \<and> \<not> whitespaceOnly ''c'' \<and>
   whitespaceOnly '' ''"
proof -
  have 1: "Split ''a, ,b,,c '' (CHR '','') = [''a'', '' '', ''b'', [], ''c '']"
    by simp
  have 2: "map TrimSpace [''a'', '' '', ''b'', [], ''c ''] = [''a'', [], ''b'', [], ''c'']"
    by code_simp
  have 3: "whitespaceOnly '' ''" by code_simp
  note t = parseInstances_spec [of "''a, ,b,,c ''"]
  from t have 4: "parseInstances ''a, ,b,,c '' = [''a'', ''b'', ''c'']" by blast
  from t have "\<forall>e \<in> set (parseInstances ''a, ,b,,c ''). e \<noteq> [] \<and> \<not> whitespaceOnly e"
    by blast
  with 4 have 5: "\<not> whitespaceOnly ''a'' \<and> \<not> whitespaceOnly ''b'' \<and> \<not> whitespaceOnly ''c''"
    by simp
  from 1 2 3 4 5 show ?thesis by blast
qed

section \<open>Runs of the process\<close>

subsection \<open>Counting over the goroutines\<close>

lemma sum_nth_update:
  fixes g :: "nat \<Rightarrow> 'b \<Rightarrow> 'a::comm_monoid_add"
  assumes "j < length ws"
  shows "(\<Sum>i<length ws. g i ((ws[j := w]) ! i)) + g j (ws ! j) =
         (\<Sum>i<length ws. g i (ws ! i)) + g j w"
proof -
  let ?A = "{..<length ws}"
  have fin: "finite ?A" and mem: "j \<in> ?A" using assms by simp_all
  have rest: "(\<Sum>i\<in>?A - {j}. g i ((ws[j := w]) ! i)) = (\<Sum>i\<in>?A - {j}. g i (ws ! i))"
    by (rule sum.cong) simp_all
  have "(\<Sum>i\<in>?A. g i ((ws[j := w]) ! i)) =
      g j ((ws[j := w]) ! j) + (\<Sum>i\<in>?A - {j}. g i ((ws[j := w]) ! i))"
    by (rule sum.remove [OF fin mem])
  moreover have "(\<Sum>i\<in>?A. g i (ws ! i)) = g j (ws ! j) + (\<Sum>i\<in>?A - {j}. g i (ws ! i))"
    by (rule sum.remove [OF fin mem])
  ultimately show ?thesis using rest assms by (simp add: ac_simps)
qed

lemma sum_nth_snoc:
  fixes g :: "nat \<Rightarrow> 'b \<Rightarrow> 'a::comm_monoid_add"
  shows "(\<Sum>i<length (ws @ [w]). g i ((ws @ [w]) ! i)) =
         (\<Sum>i<length ws. g i (ws ! i)) + g (length ws) w"
proof -
  have "(\<Sum>i<length ws. g i ((ws @ [w]) ! i)) = (\<Sum>i<length ws. g i (ws ! i))"
    by (rule sum.cong) (simp_all add: nth_append)
  then show ?thesis by simp
qed

lemma running_update:
  "j < length ws \<Longrightarrow>
   running (ws[j := w]) + (if snd (ws ! j) = Returned then 0 else 1) =
   running ws + (if snd w = Returned then 0 else 1)"
  using sum_nth_update
    [where j = j and ws = ws and w = w and
      g = "\<lambda>i x. if snd x = Returned then 0 else (1::nat)"]
  by (simp add: running_def)

lemma produced_update:
  "j < length ws \<Longrightarrow>
   produced msg (ws[j := w]) +
     (if snd (ws ! j) = AtDone \<or> snd (ws ! j) = Returned then {#msg j#} else {#}) =
   produced msg ws + (if snd w = AtDone \<or> snd w = Returned then {#msg j#} else {#})"
  using sum_nth_update
    [where j = j and ws = ws and w = w and
      g = "\<lambda>i x. if snd x = AtDone \<or> snd x = Returned then {#msg i#} else {#}"]
  by (simp add: produced_def)

lemma requested_update:
  "j < length ws \<Longrightarrow>
   requested (ws[j := w]) +
     (if snd (ws ! j) = AtFetch then {#} else {#statusURL (fst (ws ! j))#}) =
   requested ws + (if snd w = AtFetch then {#} else {#statusURL (fst w)#})"
  using sum_nth_update
    [where j = j and ws = ws and w = w and
      g = "\<lambda>i x. if snd x = AtFetch then {#} else {#statusURL (fst x)#}"]
  by (simp add: requested_def)

lemma running_snoc:
  "running (ws @ [w]) = running ws + (if snd w = Returned then 0 else 1)"
  using sum_nth_snoc
    [where ws = ws and w = w and
      g = "\<lambda>i x. if snd x = Returned then 0 else (1::nat)"]
  by (simp add: running_def)

lemma produced_snoc:
  "produced msg (ws @ [w]) =
   produced msg ws + (if snd w = AtDone \<or> snd w = Returned then {#msg (length ws)#} else {#})"
  using sum_nth_snoc
    [where ws = ws and w = w and
      g = "\<lambda>i x. if snd x = AtDone \<or> snd x = Returned then {#msg i#} else {#}"]
  by (simp add: produced_def)

lemma requested_snoc:
  "requested (ws @ [w]) =
   requested ws + (if snd w = AtFetch then {#} else {#statusURL (fst w)#})"
  using sum_nth_snoc
    [where ws = ws and w = w and
      g = "\<lambda>i x. if snd x = AtFetch then {#} else {#statusURL (fst x)#}"]
  by (simp add: requested_def)

lemma running_zero_iff: "running ws = 0 \<longleftrightarrow> (\<forall>j<length ws. snd (ws ! j) = Returned)"
  by (auto simp: running_def)

lemma sum_singletons: "(\<Sum>j<n. {#f j#}) = mset (map f [0..<n])"
  by (induction n) simp_all

lemma produced_all_returned:
  assumes "running ws = 0"
  shows "produced msg ws = mset (map msg [0..<length ws])"
proof -
  from assms have "\<forall>j<length ws. snd (ws ! j) = Returned" by (simp add: running_zero_iff)
  then have "produced msg ws = (\<Sum>j<length ws. {#msg j#})"
    unfolding produced_def by (intro sum.cong) simp_all
  then show ?thesis by (simp add: sum_singletons)
qed

subsection \<open>The aggregator's loop\<close>

lemma processResults_loop_snoc:
  "processResults_loop healthy (rs @ [r]) = checkResult (processResults_loop healthy rs) r"
  by (induction rs arbitrary: healthy) simp_all

lemma processResults_snoc:
  "processResults (rs @ [r]) = checkResult (processResults rs) r"
  by (simp add: processResults_def processResults_loop_snoc)

lemma processResults_loop_iff:
  "processResults_loop healthy rs \<longleftrightarrow> healthy \<and> \<not> (\<exists>m \<in> set rs. Contains m ''mismatch'')"
  by (induction rs arbitrary: healthy) (auto simp: checkResult_def)

lemma processResults_iff:
  "processResults rs \<longleftrightarrow> \<not> (\<exists>m \<in> set rs. Contains m ''mismatch'')"
  by (simp add: processResults_def processResults_loop_iff)


subsection \<open>Every step keeps the invariant\<close>

lemma invariant_initial:
  "invariant net v instances (initial (Spawning instances) (length instances))"
  by (simp add: invariant_def initial_def running_def produced_def requested_def
      processResults_def)

lemma stepMain_invariant:
  assumes inv: "invariant net v instances s" and st: "stepMain s = Some s'"
  shows "invariant net v instances s'"
proof (cases "mainPC s")
  case (Spawning rest)
  show ?thesis
  proof (cases rest)
    case Nil
    with Spawning st have s': "s' = s\<lparr>mainPC := Draining, closer := AtWait\<rparr>"
      by (simp add: stepMain_def)
    from inv Spawning Nil have "length (workers s) = length instances"
      by (simp add: invariant_def)
    with inv Spawning show ?thesis
      unfolding s' invariant_def by simp
  next
    case (Cons i rest')
    with Spawning st have s': "s' = s\<lparr>mainPC := Spawning rest', wgCounter := wgCounter s + 1,
        workers := workers s @ [(i, AtFetch)]\<rparr>"
      by (simp add: stepMain_def)
    from inv Spawning Cons have d: "drop (length (workers s)) instances = i # rest'"
      by (simp add: invariant_def)
    then have lt: "length (workers s) < length instances"
      by (metis drop_all leI list.distinct(1))
    from d lt have i: "instances ! length (workers s) = i"
      by (metis Cons_nth_drop_Suc list.inject)
    from d lt have r: "rest' = drop (Suc (length (workers s))) instances"
      by (metis Cons_nth_drop_Suc list.inject)
    from inv have m: "map fst (workers s) = take (length (workers s)) instances"
      by (simp add: invariant_def)
    have 3: "map fst (workers s @ [(i, AtFetch)]) =
        take (length (workers s @ [(i, AtFetch)])) instances"
      using m i lt by (simp add: take_Suc_conv_app_nth)
    have 6: "\<forall>j<length (workers s @ [(i, AtFetch)]). \<forall>m.
        snd ((workers s @ [(i, AtFetch)]) ! j) = AtSend m \<longrightarrow> m = message net v instances j"
      using inv by (auto simp: invariant_def nth_append)
    from inv Spawning lt r 3 6 show ?thesis
      unfolding s' invariant_def
      by (simp add: running_snoc produced_snoc requested_snoc)
  qed
next
  case Draining
  show ?thesis
  proof (cases "chanBuf s")
    case Nil
    with Draining st have c: "chanClosed s"
      and s': "s' = s\<lparr>mainPC := Exited (if \<not> exitHealthy s then 1 else 0)\<rparr>"
      by (auto simp: stepMain_def split: if_splits)
    from inv Draining Nil c show ?thesis
      unfolding s' invariant_def by simp
  next
    case (Cons r rest)
    with Draining st have s': "s' = s\<lparr>chanBuf := rest, drained := drained s @ [r],
        exitHealthy := checkResult (exitHealthy s) r\<rparr>"
      by (simp add: stepMain_def)
    from inv Draining Cons show ?thesis
      unfolding s' invariant_def by (simp add: processResults_snoc)
  qed
next
  case (Exited code)
  with st show ?thesis by (simp add: stepMain_def)
qed

lemma running_pos: "j < length ws \<Longrightarrow> snd (ws ! j) \<noteq> Returned \<Longrightarrow> 0 < running ws"
  using running_zero_iff [of ws] by auto

lemma stepWorker_invariant:
  assumes inv: "invariant net v instances s" and st: "stepWorker (net j) v j s = Some s'"
  shows "invariant net v instances s'"
proof -
  from st have j: "j < length (workers s)"
    by (simp add: stepWorker_def split: if_splits)
  obtain i pc where w: "workers s ! j = (i, pc)" by (cases "workers s ! j")
  from inv j have "map fst (workers s) ! j = take (length (workers s)) instances ! j"
    by (simp add: invariant_def)
  with j w have i: "i = instances ! j" by simp
  have fst_upd: "map fst ((workers s)[j := (i, pc')]) = map fst (workers s)" for pc'
    using j w by (simp add: map_update) (metis fst_conv list_update_id map_update)
  have send_upd: "\<forall>k<length ((workers s)[j := (i, pc')]). \<forall>m.
        snd ((workers s)[j := (i, pc')] ! k) = AtSend m \<longrightarrow> m = message net v instances k"
    if "\<forall>m. pc' = AtSend m \<longrightarrow> m = message net v instances j" for pc'
  proof -
    from inv have "\<forall>k<length (workers s). \<forall>m.
        snd (workers s ! k) = AtSend m \<longrightarrow> m = message net v instances k"
      by (simp add: invariant_def)
    with that j show ?thesis by (auto simp: nth_list_update split: if_splits)
  qed
  show ?thesis
  proof (cases pc)
    case AtFetch
    let ?m = "compareReleaseNumbers (net j) i v"
    from st j w AtFetch have s': "s' = s\<lparr>requests := requests s @ [statusURL i],
        workers := (workers s)[j := (i, AtSend ?m)]\<rparr>"
      by (simp add: stepWorker_def)
    have ru: "running ((workers s)[j := (i, AtSend ?m)]) = running (workers s)"
      using running_update [OF j, of "(i, AtSend ?m)"] w AtFetch by simp
    have pu: "produced msg ((workers s)[j := (i, AtSend ?m)]) = produced msg (workers s)" for msg
      using produced_update [OF j, of msg "(i, AtSend ?m)"] w AtFetch by simp
    have qu: "requested ((workers s)[j := (i, AtSend ?m)]) =
        requested (workers s) + {#statusURL i#}"
      using requested_update [OF j, of "(i, AtSend ?m)"] w AtFetch by simp
    have "\<forall>m. AtSend ?m = AtSend m \<longrightarrow> m = message net v instances j"
      by (simp add: message_def i)
    note su = send_upd [OF this]
    from inv su show ?thesis
      unfolding s' invariant_def
      by (simp add: fst_upd ru pu qu split: mainPC.splits)
  next
    case (AtSend m)
    from inv j w AtSend have m: "m = message net v instances j"
      by (auto simp: invariant_def)
    from j w AtSend have pos: "0 < running (workers s)"
      using running_pos [of j "workers s"] by simp
    with inv have nc: "\<not> chanClosed s" by (auto simp: invariant_def)
    with st j w AtSend have s': "s' = s\<lparr>chanBuf := chanBuf s @ [m],
        workers := (workers s)[j := (i, AtDone)]\<rparr>"
      by (simp add: stepWorker_def split: if_splits)
    have ru: "running ((workers s)[j := (i, AtDone)]) = running (workers s)"
      using running_update [OF j, of "(i, AtDone)"] w AtSend by simp
    have pu: "produced msg ((workers s)[j := (i, AtDone)]) =
        produced msg (workers s) + {#msg j#}" for msg
      using produced_update [OF j, of msg "(i, AtDone)"] w AtSend by simp
    have qu: "requested ((workers s)[j := (i, AtDone)]) = requested (workers s)"
      using requested_update [OF j, of "(i, AtDone)"] w AtSend by simp
    have "\<forall>m. AtDone = AtSend m \<longrightarrow> m = message net v instances j" by simp
    note su = send_upd [OF this]
    from inv pos have nx: "\<not> exited s"
      by (auto simp: invariant_def exited_def split: mainPC.splits)
    from inv su nx show ?thesis
      unfolding s' invariant_def
      by (simp add: fst_upd ru pu qu m exited_def split: mainPC.splits)
  next
    case AtDone
    from j w AtDone have pos: "0 < running (workers s)"
      using running_pos [of j "workers s"] by simp
    with inv have "\<not> wgCounter s - 1 < 0" by (simp add: invariant_def)
    with st j w AtDone have s': "s' = s\<lparr>wgCounter := wgCounter s - 1,
        workers := (workers s)[j := (i, Returned)]\<rparr>"
      by (simp add: stepWorker_def split: if_splits)
    have ru: "running ((workers s)[j := (i, Returned)]) + 1 = running (workers s)"
      using running_update [OF j, of "(i, Returned)"] w AtDone by simp
    have pu: "produced msg ((workers s)[j := (i, Returned)]) = produced msg (workers s)" for msg
    proof -
      from produced_update [OF j, of msg "(i, Returned)"] w AtDone
      have "produced msg ((workers s)[j := (i, Returned)]) + {#msg j#} =
          produced msg (workers s) + {#msg j#}" by simp
      then show ?thesis by simp
    qed
    have qu: "requested ((workers s)[j := (i, Returned)]) = requested (workers s)"
    proof -
      from requested_update [OF j, of "(i, Returned)"] w AtDone
      have "requested ((workers s)[j := (i, Returned)]) + {#statusURL i#} =
          requested (workers s) + {#statusURL i#}" by simp
      then show ?thesis by simp
    qed
    have "\<forall>m. Returned = AtSend m \<longrightarrow> m = message net v instances j" by simp
    note su = send_upd [OF this]
    from inv pos have nx: "\<not> exited s" and nc: "closer s \<noteq> AtClose \<and> closer s \<noteq> CloserReturned"
      by (auto simp: invariant_def exited_def split: mainPC.splits)
    from ru have wg: "int (running (workers s)) - 1 = int (running ((workers s)[j := (i, Returned)]))"
      by linarith
    from inv su nx nc show ?thesis
      unfolding s' invariant_def
      by (simp add: fst_upd wg pu qu exited_def split: mainPC.splits)
  next
    case Returned
    with st j w show ?thesis by (simp add: stepWorker_def)
  qed
qed

lemma stepCloser_invariant:
  assumes inv: "invariant net v instances s" and st: "stepCloser s = Some s'"
    and nx: "\<not> exited s"
  shows "invariant net v instances s'"
proof (cases "closer s")
  case NotStarted
  with st show ?thesis by (simp add: stepCloser_def)
next
  case AtWait
  with st have z: "wgCounter s = 0" and s': "s' = s\<lparr>closer := AtClose\<rparr>"
    by (auto simp: stepCloser_def split: if_splits)
  from inv z have "running (workers s) = 0" by (simp add: invariant_def)
  with inv AtWait nx show ?thesis
    unfolding s' invariant_def by (simp add: exited_def split: mainPC.splits)
next
  case AtClose
  with inv have "\<not> chanClosed s" by (simp add: invariant_def)
  with st AtClose have s': "s' = s\<lparr>chanClosed := True, closer := CloserReturned\<rparr>"
    by (simp add: stepCloser_def)
  from inv AtClose nx show ?thesis
    unfolding s' invariant_def by (simp add: exited_def split: mainPC.splits)
next
  case CloserReturned
  with st show ?thesis by (simp add: stepCloser_def)
qed

lemma step_invariant:
  assumes "invariant net v instances s" and "step net v t s = Some s'"
  shows "invariant net v instances s'"
proof -
  from assms(2) have nx: "\<not> exited s"
    by (auto simp: step_def exited_def split: mainPC.splits)
  with assms(2) have "(case t of MainThread \<Rightarrow> stepMain s
      | Worker j \<Rightarrow> stepWorker (net j) v j s | Closer \<Rightarrow> stepCloser s) = Some s'"
    by (auto simp: step_def exited_def split: mainPC.splits)
  with assms(1) nx show ?thesis
    by (cases t) (auto intro: stepMain_invariant stepWorker_invariant stepCloser_invariant)
qed

lemma run_invariant:
  "invariant net v instances s \<Longrightarrow> run net v sched s = Some s' \<Longrightarrow>
   invariant net v instances s'"
proof (induction sched arbitrary: s)
  case Nil
  then show ?case by simp
next
  case (Cons t ts)
  from Cons.prems(2) obtain s1 where 1: "step net v t s = Some s1"
    and 2: "run net v ts s1 = Some s'"
    by (auto split: option.splits)
  from step_invariant [OF Cons.prems(1) 1] 2 show ?case by (rule Cons.IH)
qed

subsection \<open>Every run ends, and can always go on until \<open>main\<close> exits\<close>

lemma weight_update:
  "j < length ws \<Longrightarrow>
   sum_list (map workerWeight (ws[j := w])) + workerWeight (ws ! j) =
   sum_list (map workerWeight ws) + workerWeight w"
proof (induction ws arbitrary: j)
  case Nil
  then show ?case by simp
next
  case (Cons x ws)
  show ?case
  proof (cases j)
    case 0
    then show ?thesis by simp
  next
    case (Suc k)
    with Cons.prems have "k < length ws" by simp
    from Cons.IH [OF this] Suc show ?thesis by simp
  qed
qed

lemma stepMain_decreases: "\<not> exited s \<Longrightarrow> stepMain s = Some s' \<Longrightarrow> stepsLeft s' < stepsLeft s"
  by (auto simp: stepMain_def stepsLeft_def workerWeight_def exited_def
      split: mainPC.splits list.splits if_splits closerPC.splits)

lemma panic_decreases: "\<not> exited s \<Longrightarrow> stepsLeft (panic s) < stepsLeft s"
  by (auto simp: panic_def stepsLeft_def exited_def split: mainPC.splits)

lemma stepWorker_decreases:
  assumes "\<not> exited s" and "stepWorker get v j s = Some s'"
  shows "stepsLeft s' < stepsLeft s"
proof -
  from assms(2) have j: "j < length (workers s)"
    by (simp add: stepWorker_def split: if_splits)
  obtain i pc where w: "workers s ! j = (i, pc)" by (cases "workers s ! j")
  note u = weight_update [OF j, unfolded w]
  show ?thesis
  proof (cases pc)
    case AtFetch
    with assms(2) j w have "s' = s\<lparr>requests := requests s @ [statusURL i],
        workers := (workers s)[j := (i, AtSend (compareReleaseNumbers get i v))]\<rparr>"
      by (simp add: stepWorker_def)
    with u [of "(i, AtSend (compareReleaseNumbers get i v))"] AtFetch show ?thesis
      by (simp add: stepsLeft_def workerWeight_def)
  next
    case (AtSend m)
    with assms(2) j w consider "s' = panic s"
      | "s' = s\<lparr>chanBuf := chanBuf s @ [m], workers := (workers s)[j := (i, AtDone)]\<rparr>"
      by (auto simp: stepWorker_def split: if_splits)
    then show ?thesis
    proof cases
      case 1
      with assms(1) show ?thesis by (simp add: panic_decreases)
    next
      case 2
      with u [of "(i, AtDone)"] AtSend show ?thesis
        by (simp add: stepsLeft_def workerWeight_def)
    qed
  next
    case AtDone
    with assms(2) j w consider "s' = panic s"
      | "s' = s\<lparr>wgCounter := wgCounter s - 1, workers := (workers s)[j := (i, Returned)]\<rparr>"
      by (auto simp: stepWorker_def split: if_splits)
    then show ?thesis
    proof cases
      case 1
      with assms(1) show ?thesis by (simp add: panic_decreases)
    next
      case 2
      with u [of "(i, Returned)"] AtDone show ?thesis
        by (simp add: stepsLeft_def workerWeight_def)
    qed
  next
    case Returned
    with assms(2) j w show ?thesis by (simp add: stepWorker_def)
  qed
qed

lemma stepCloser_decreases:
  assumes "\<not> exited s" and "stepCloser s = Some s'"
  shows "stepsLeft s' < stepsLeft s"
proof (cases "closer s")
  case AtClose
  with assms(2) consider "s' = panic s" | "s' = s\<lparr>chanClosed := True, closer := CloserReturned\<rparr>"
    by (auto simp: stepCloser_def split: if_splits)
  then show ?thesis
  proof cases
    case 1
    with assms(1) show ?thesis by (simp add: panic_decreases)
  next
    case 2
    with AtClose show ?thesis by (simp add: stepsLeft_def)
  qed
qed (use assms(2) in \<open>auto simp: stepCloser_def stepsLeft_def split: if_splits\<close>)

lemma step_decreases:
  assumes "step net v t s = Some s'"
  shows "stepsLeft s' < stepsLeft s"
proof -
  from assms have nx: "\<not> exited s"
    by (auto simp: step_def exited_def split: mainPC.splits)
  with assms have "(case t of MainThread \<Rightarrow> stepMain s
      | Worker j \<Rightarrow> stepWorker (net j) v j s | Closer \<Rightarrow> stepCloser s) = Some s'"
    by (auto simp: step_def exited_def split: mainPC.splits)
  with nx show ?thesis
    by (cases t) (auto intro: stepMain_decreases stepWorker_decreases stepCloser_decreases)
qed

lemma run_bounded:
  "run net v sched s = Some s' \<Longrightarrow> length sched + stepsLeft s' \<le> stepsLeft s"
proof (induction sched arbitrary: s)
  case Nil
  then show ?case by simp
next
  case (Cons t ts)
  from Cons.prems obtain s1 where 1: "step net v t s = Some s1"
    and 2: "run net v ts s1 = Some s'"
    by (auto split: option.splits)
  from Cons.IH [OF 2] step_decreases [OF 1] show ?case by simp
qed

lemma run_exited:
  assumes "exited s" and "run net v sched s = Some s'"
  shows "sched = [] \<and> s' = s"
proof (cases sched)
  case Nil
  with assms(2) show ?thesis by simp
next
  case (Cons t ts)
  from assms(1) have "step net v t s = None"
    by (auto simp: step_def exited_def split: mainPC.splits)
  with assms(2) Cons show ?thesis by simp
qed

lemma run_append:
  "run net v (a @ b) s = (case run net v a s of None \<Rightarrow> None | Some s1 \<Rightarrow> run net v b s1)"
  by (induction a arbitrary: s) (auto split: option.splits)

text \<open>No deadlock: while \<open>main\<close> has not exited, some goroutine can take a step.\<close>

lemma can_step:
  assumes inv: "invariant net v instances s" and nx: "\<not> exited s"
  shows "\<exists>t s'. step net v t s = Some s'"
proof -
  have st: "step net v t s = (case t of MainThread \<Rightarrow> stepMain s
      | Worker j \<Rightarrow> stepWorker (net j) v j s | Closer \<Rightarrow> stepCloser s)" for t
    using nx by (auto simp: step_def exited_def split: mainPC.splits)
  have main: ?thesis if "stepMain s = Some s'" for s'
    using that st [of MainThread] by auto
  have closer: ?thesis if "stepCloser s = Some s'" for s'
    using that st [of Closer] by auto
  have worker: ?thesis if "stepWorker (net j) v j s = Some s'" for j s'
    using that st [of "Worker j"] by auto
  show ?thesis
  proof (cases "mainPC s")
    case (Spawning rest)
    then have "\<exists>s'. stepMain s = Some s'"
      by (cases rest) (simp_all add: stepMain_def)
    with main show ?thesis by blast
  next
    case (Exited code)
    with nx show ?thesis by (simp add: exited_def)
  next
    case Draining
    show ?thesis
    proof (cases "chanBuf s = [] \<and> \<not> chanClosed s")
      case False
      with Draining have "\<exists>s'. stepMain s = Some s'"
        by (cases "chanBuf s") (auto simp: stepMain_def)
      with main show ?thesis by blast
    next
      case True
      from inv Draining True have c: "closer s = AtWait \<or> closer s = AtClose"
        by (cases "closer s") (auto simp: invariant_def)
      show ?thesis
      proof (cases "closer s = AtClose \<or> wgCounter s = 0")
        case True
        with c have "\<exists>s'. stepCloser s = Some s'"
          by (auto simp: stepCloser_def)
        with closer show ?thesis by blast
      next
        case False
        with inv have "running (workers s) \<noteq> 0" by (simp add: invariant_def)
        then obtain j where j: "j < length (workers s)"
          and r: "snd (workers s ! j) \<noteq> Returned"
          by (auto simp: running_zero_iff)
        obtain i pc where w: "workers s ! j = (i, pc)" by (cases "workers s ! j")
        from inv have "chanCap s = length instances"
          and "length (workers s) \<le> length instances"
          by (simp_all add: invariant_def)
        with j have "0 < chanCap s" by (cases instances) simp_all
        with True j w r have "\<exists>s'. stepWorker (net j) v j s = Some s'"
          by (cases pc) (auto simp: stepWorker_def)
        with worker show ?thesis by blast
      qed
    qed
  qed
qed

lemma can_finish:
  "invariant net v instances s \<Longrightarrow> \<exists>sched s'. run net v sched s = Some s' \<and> exited s'"
proof (induction s rule: measure_induct_rule [of stepsLeft])
  case (less s)
  show ?case
  proof (cases "exited s")
    case True
    then have "run net v [] s = Some s \<and> exited s" by simp
    then show ?thesis by blast
  next
    case False
    from can_step [OF less.prems False] obtain t s1 where 1: "step net v t s = Some s1"
      by blast
    from less.IH [OF step_decreases [OF 1] step_invariant [OF less.prems 1]]
    obtain sched s' where "run net v sched s1 = Some s'" and "exited s'" by blast
    with 1 have "run net v (t # sched) s = Some s' \<and> exited s'" by simp
    then show ?thesis by blast
  qed
qed

subsection \<open>The state in which \<open>main\<close> exits\<close>

lemma requested_all:
  assumes "\<forall>j<length ws. snd (ws ! j) \<noteq> AtFetch"
  shows "requested ws = mset (map statusURL (map fst ws))"
proof -
  from assms have "requested ws = (\<Sum>j<length ws. {#statusURL (fst (ws ! j))#})"
    unfolding requested_def by (intro sum.cong) simp_all
  also have "\<dots> = mset (map (\<lambda>j. statusURL (fst (ws ! j))) [0..<length ws])"
    by (rule sum_singletons)
  also have "map (\<lambda>j. statusURL (fst (ws ! j))) [0..<length ws] = map statusURL (map fst ws)"
    by (rule nth_equalityI) simp_all
  finally show ?thesis .
qed

lemma invariant_closed:
  assumes "invariant net v instances s" and "chanClosed s"
  shows "running (workers s) = 0"
  using assms by (simp add: invariant_def)

lemma invariant_exited:
  assumes inv: "invariant net v instances s" and x: "exited s"
  shows "mset (drained s) = mset (map (message net v instances) [0..<length instances])"
    and "length (drained s) = length instances"
    and "chanClosed s" and "chanBuf s = []"
    and "exitCode s = Some (if processResults (drained s) then 0 else 1)"
    and "mset (requests s) = mset (map statusURL instances)"
proof -
  from x obtain code where e: "mainPC s = Exited code"
    by (cases "mainPC s") (simp_all add: exited_def)
  with inv have n: "length (workers s) = length instances" and b: "chanBuf s = []"
    and cr: "closer s = CloserReturned" and code: "code = (if exitHealthy s then 0 else 1)"
    by (simp_all add: invariant_def)
  from inv cr have r: "running (workers s) = 0" and c: "chanClosed s"
    by (simp_all add: invariant_def)
  from inv b have "mset (drained s) = produced (message net v instances) (workers s)"
    by (simp add: invariant_def)
  with r n show 1: "mset (drained s) = mset (map (message net v instances) [0..<length instances])"
    by (simp add: produced_all_returned)
  from arg_cong [OF 1, of size] show "length (drained s) = length instances" by simp
  from c show "chanClosed s" .
  from b show "chanBuf s = []" .
  from inv e code show "exitCode s = Some (if processResults (drained s) then 0 else 1)"
    by (simp add: invariant_def exitCode_def)
  from r have "\<forall>j<length (workers s). snd (workers s ! j) \<noteq> AtFetch"
    by (simp add: running_zero_iff)
  then have "requested (workers s) = mset (map statusURL (map fst (workers s)))"
    by (rule requested_all)
  moreover from inv have "map fst (workers s) = take (length (workers s)) instances"
    and "mset (requests s) = requested (workers s)"
    by (simp_all add: invariant_def)
  ultimately show "mset (requests s) = mset (map statusURL instances)"
    using n by simp
qed

subsection \<open>The program on its flags\<close>

lemma start_invalid:
  "instanceFlag = [] \<or> versionFlag = [] \<or> parseInstances instanceFlag = [] \<Longrightarrow>
   start instanceFlag versionFlag = initial (Exited 1) 0"
  by (auto simp: start_def Let_def)

lemma start_valid:
  "instanceFlag \<noteq> [] \<Longrightarrow> versionFlag \<noteq> [] \<Longrightarrow> parseInstances instanceFlag \<noteq> [] \<Longrightarrow>
   start instanceFlag versionFlag =
     initial (Spawning (parseInstances instanceFlag)) (length (parseInstances instanceFlag))"
  by (simp add: start_def Let_def)

lemma main_invalid:
  assumes "instanceFlag = [] \<or> versionFlag = [] \<or> parseInstances instanceFlag = []"
    and "main net instanceFlag versionFlag sched = Some s"
  shows "sched = [] \<and> s = initial (Exited 1) 0"
proof -
  have "exited (initial (Exited 1) 0)" by (simp add: exited_def initial_def)
  from run_exited [OF this] assms show ?thesis
    by (auto simp: main_def start_invalid)
qed

lemma main_valid:
  assumes "instanceFlag \<noteq> []" and "versionFlag \<noteq> []" and "parseInstances instanceFlag \<noteq> []"
    and "main net instanceFlag versionFlag sched = Some s"
  shows "invariant net versionFlag (parseInstances instanceFlag) s"
  using run_invariant [OF invariant_initial] assms
  by (simp add: main_def start_valid)

lemma main_can_finish: "\<exists>sched s. main net instanceFlag versionFlag sched = Some s \<and> exited s"
proof (cases "instanceFlag = [] \<or> versionFlag = [] \<or> parseInstances instanceFlag = []")
  case True
  then have "main net instanceFlag versionFlag [] = Some (initial (Exited 1) 0)"
    by (simp add: main_def start_invalid)
  moreover have "exited (initial (Exited 1) 0)" by (simp add: exited_def initial_def)
  ultimately show ?thesis by blast
next
  case False
  then have "start instanceFlag versionFlag =
     initial (Spawning (parseInstances instanceFlag)) (length (parseInstances instanceFlag))"
    by (simp add: start_valid)
  with can_finish [OF invariant_initial, of net versionFlag "parseInstances instanceFlag"]
  show ?thesis by (simp add: main_def)
qed

section \<open>The claims about whole runs\<close>

lemma exited_messages:
  assumes "instanceFlag \<noteq> []" and "versionFlag \<noteq> []" and "parseInstances instanceFlag \<noteq> []"
    and "main net instanceFlag versionFlag sched = Some s" and "exited s"
  shows "set (drained s) =
      message net versionFlag (parseInstances instanceFlag) `
        {..<length (parseInstances instanceFlag)}"
proof -
  note inv = main_valid [OF assms(1-4)]
  from invariant_exited(1) [OF inv assms(5)]
  have "set_mset (mset (drained s)) =
      set_mset (mset (map (message net versionFlag (parseInstances instanceFlag))
        [0..<length (parseInstances instanceFlag)]))"
    by simp
  then show ?thesis by (simp add: lessThan_atLeast0)
qed

lemma exitCode_at_exit:
  assumes "instanceFlag \<noteq> []" and "versionFlag \<noteq> []" and "parseInstances instanceFlag \<noteq> []"
    and "main net instanceFlag versionFlag sched = Some s" and "exited s"
  shows "exitCode s = Some (if \<exists>m \<in> set (drained s). Contains m ''mismatch'' then 1 else 0)"
  using invariant_exited(5) [OF main_valid [OF assms(1-4)] assms(5)]
  by (simp add: processResults_iff)

lemma compareReleaseNumbers_embeds_instance:
  "\<exists>a b. compareReleaseNumbers get instance v = a @ instance @ b"
proof (cases "fetchStatus get instance")
  case (Inl err)
  then have "compareReleaseNumbers get instance v =
      ''Error fetching status for instance '' @ instance @ ('': '' @ Error err)"
    by (simp add: compareReleaseNumbers_def errorMessage_def)
  then show ?thesis by blast
next
  case (Inr r)
  show ?thesis
  proof (cases "r = v")
    case True
    with Inr have "compareReleaseNumbers get instance v =
        ''Release number matches for instance '' @ instance @ ('': '' @ r)"
      by (simp add: compareReleaseNumbers_def matchMessage_def)
    then show ?thesis by blast
  next
    case False
    with Inr have "compareReleaseNumbers get instance v =
        ''Release number mismatch for instance '' @ instance @
          ('': expected '' @ v @ '', got '' @ r)"
      by (simp add: compareReleaseNumbers_def mismatchMessage_def)
    then show ?thesis by blast
  qed
qed

lemma compareReleaseNumbers_Contains_instance:
  assumes "Contains instance sub"
  shows "Contains (compareReleaseNumbers get instance v) sub"
proof -
  obtain a b where "compareReleaseNumbers get instance v = a @ instance @ b"
    using compareReleaseNumbers_embeds_instance by blast
  with Contains_append [OF assms, of a b] show ?thesis by simp
qed

text \<open>
  C2. For a valid invocation with \<open>N\<close> instances, in every state of every run the
  messages read by the aggregator and those waiting in the channel are the messages of
  the comparators that are past their channel write, one each; the channel is closed
  only when all \<open>N\<close> have been written; when \<open>main\<close> exits the aggregator has read
  exactly \<open>N\<close> messages, the comparators' messages in some order; no run takes more
  steps than \<open>stepsLeft\<close> of the first state, and some run ends with \<open>main\<close> exited.
\<close>

theorem one_message_per_instance:
  assumes "instanceFlag \<noteq> []" and "versionFlag \<noteq> []"
    and "instances = parseInstances instanceFlag" and "instances \<noteq> []"
  shows
    "(\<forall>sched s. main net instanceFlag versionFlag sched = Some s \<longrightarrow>
        mset (drained s) + mset (chanBuf s) =
          produced (message net versionFlag instances) (workers s) \<and>
        (chanClosed s \<longrightarrow>
           length (drained s) + length (chanBuf s) = length instances \<and>
           mset (drained s) + mset (chanBuf s) =
             mset (map (message net versionFlag instances) [0..<length instances])) \<and>
        (exited s \<longrightarrow>
           chanClosed s \<and> length (drained s) = length instances \<and>
           mset (drained s) =
             mset (map (message net versionFlag instances) [0..<length instances])) \<and>
        length sched \<le> stepsLeft (start instanceFlag versionFlag)) \<and>
     (\<exists>sched s. main net instanceFlag versionFlag sched = Some s \<and> exited s)"
proof (intro conjI allI impI)
  show "\<exists>sched s. main net instanceFlag versionFlag sched = Some s \<and> exited s"
    by (rule main_can_finish)
next
  fix sched s
  assume m: "main net instanceFlag versionFlag sched = Some s"
  from assms have v: "parseInstances instanceFlag \<noteq> []" by simp
  from main_valid [OF assms(1,2) v m] assms(3)
  have inv: "invariant net versionFlag instances s" by simp
  then show p: "mset (drained s) + mset (chanBuf s) =
      produced (message net versionFlag instances) (workers s)"
    by (simp add: invariant_def)
  from m run_bounded [of net versionFlag sched "start instanceFlag versionFlag" s]
  show "length sched \<le> stepsLeft (start instanceFlag versionFlag)"
    by (simp add: main_def)
  {
    assume c: "chanClosed s"
    from inv c have n: "length (workers s) = length instances"
      by (auto simp: invariant_def split: mainPC.splits)
    from invariant_closed [OF inv c] p n
    show a: "mset (drained s) + mset (chanBuf s) =
        mset (map (message net versionFlag instances) [0..<length instances])"
      by (simp add: produced_all_returned)
    from arg_cong [OF a, of size]
    show "length (drained s) + length (chanBuf s) = length instances" by simp
  }
  {
    assume x: "exited s"
    from invariant_exited [OF inv x]
    show "chanClosed s" and "length (drained s) = length instances"
      and "mset (drained s) =
        mset (map (message net versionFlag instances) [0..<length instances])"
      by simp_all
  }
qed

theorem one_message_per_instance_witness:
  "\<exists>s. main net_ok_v1 ''NA1, NA2'' ''v1'' interleaved = Some s \<and>
       exited s \<and> chanClosed s \<and> length (drained s) = 2 \<and>
       drained s =
         [''Release number matches for instance NA2: v1'',
          ''Release number matches for instance NA1: v1''] \<and>
       length interleaved \<le> stepsLeft (start ''NA1, NA2'' ''v1'')"
proof -
  have p: "[''NA1'', ''NA2''] = parseInstances ''NA1, NA2''" by code_simp
  have "case main net_ok_v1 ''NA1, NA2'' ''v1'' interleaved of
      None \<Rightarrow> False
    | Some s \<Rightarrow> exited s \<and> drained s =
         [''Release number matches for instance NA2: v1'',
          ''Release number matches for instance NA1: v1'']"
    by code_simp
  then obtain s where m: "main net_ok_v1 ''NA1, NA2'' ''v1'' interleaved = Some s"
    and x: "exited s"
    and d: "drained s =
         [''Release number matches for instance NA2: v1'',
          ''Release number matches for instance NA1: v1'']"
    by (cases "main net_ok_v1 ''NA1, NA2'' ''v1'' interleaved") auto
  have "''NA1, NA2'' \<noteq> []" and "''v1'' \<noteq> []" and "[''NA1'', ''NA2''] \<noteq> []"
    by simp_all
  from one_message_per_instance [OF this(1,2) p this(3), of net_ok_v1] m x
  have "chanClosed s" and "length (drained s) = 2"
    and "length interleaved \<le> stepsLeft (start ''NA1, NA2'' ''v1'')"
    by auto
  with m x d show ?thesis by blast
qed

lemma initial_exited:
  "exited (initial (Exited code) n)" "exitCode (initial (Exited code) n) = Some code"
  "requests (initial (Exited code) n) = []" "drained (initial (Exited code) n) = []"
  by (simp_all add: initial_def exited_def exitCode_def)

lemma message_nth:
  "message net v instances j = compareReleaseNumbers (net j) (instances ! j) v"
  by (simp add: message_def)

text \<open>
  C1, as the code has it. The verdict of \<open>processResults\<close> is unhealthy exactly when
  some message read contains \<open>mismatch\<close>. An error message contains it exactly when
  the instance name or the error text does, so a fetch error alone does not make the
  verdict unhealthy. For three instances of which one fetch fails and the others match,
  where neither the instance names nor the expected version nor the error text contain
  \<open>mismatch\<close>: three messages are read, the error message among them, the verdict is
  healthy and the exit code 0.
\<close>

theorem verdict_by_substring:
  "(processResults rs \<longleftrightarrow> \<not> (\<exists>m \<in> set rs. Contains m ''mismatch'')) \<and>
   (Contains (errorMessage instance err) ''mismatch'' \<longleftrightarrow>
      Contains instance ''mismatch'' \<or> Contains (Error err) ''mismatch'') \<and>
   (\<forall>sched s.
      instanceFlag \<noteq> [] \<and> versionFlag \<noteq> [] \<and>
      length (parseInstances instanceFlag) = 3 \<and> failing < 3 \<and>
      fetchStatus (net failing) (parseInstances instanceFlag ! failing) = Inl failure \<and>
      (\<forall>j<3. j \<noteq> failing \<longrightarrow>
         fetchStatus (net j) (parseInstances instanceFlag ! j) = Inr versionFlag) \<and>
      (\<forall>x \<in> set (parseInstances instanceFlag). \<not> Contains x ''mismatch'') \<and>
      \<not> Contains versionFlag ''mismatch'' \<and> \<not> Contains (Error failure) ''mismatch'' \<and>
      main net instanceFlag versionFlag sched = Some s \<and> exited s \<longrightarrow>
      length (drained s) = 3 \<and>
      errorMessage (parseInstances instanceFlag ! failing) failure \<in> set (drained s) \<and>
      exitHealthy s \<and> exitCode s = Some 0)"
proof (intro conjI allI impI)
  show "processResults rs \<longleftrightarrow> \<not> (\<exists>m \<in> set rs. Contains m ''mismatch'')"
    by (rule processResults_iff)
  show "Contains (errorMessage instance err) ''mismatch'' \<longleftrightarrow>
      Contains instance ''mismatch'' \<or> Contains (Error err) ''mismatch''"
    by (rule errorMessage_Contains)
next
  fix sched s
  let ?is = "parseInstances instanceFlag"
  assume a: "instanceFlag \<noteq> [] \<and> versionFlag \<noteq> [] \<and>
      length ?is = 3 \<and> failing < 3 \<and>
      fetchStatus (net failing) (?is ! failing) = Inl failure \<and>
      (\<forall>j<3. j \<noteq> failing \<longrightarrow> fetchStatus (net j) (?is ! j) = Inr versionFlag) \<and>
      (\<forall>x \<in> set ?is. \<not> Contains x ''mismatch'') \<and>
      \<not> Contains versionFlag ''mismatch'' \<and> \<not> Contains (Error failure) ''mismatch'' \<and>
      main net instanceFlag versionFlag sched = Some s \<and> exited s"
  then have f: "instanceFlag \<noteq> []" "versionFlag \<noteq> []" and n: "length ?is = 3"
    and ne: "?is \<noteq> []" and m: "main net instanceFlag versionFlag sched = Some s"
    and x: "exited s" and fl: "failing < 3"
    by auto
  note inv = main_valid [OF f ne m]
  have d: "set (drained s) = message net versionFlag ?is ` {..<3}"
    using exited_messages [OF f ne m x] n by simp
  have bad: "message net versionFlag ?is failing = errorMessage (?is ! failing) failure"
    using a by (simp add: message_nth compareReleaseNumbers_def)
  have good: "message net versionFlag ?is j = matchMessage (?is ! j) versionFlag"
    if "j < 3" "j \<noteq> failing" for j
    using a that by (simp add: message_nth compareReleaseNumbers_def)
  have clean: "\<not> Contains (message net versionFlag ?is j) ''mismatch''" if "j < 3" for j
  proof -
    from that n have "?is ! j \<in> set ?is" by simp
    with a have i: "\<not> Contains (?is ! j) ''mismatch''" by blast
    show ?thesis
    proof (cases "j = failing")
      case True
      with i a show ?thesis by (simp add: bad errorMessage_Contains)
    next
      case False
      with i a that show ?thesis by (simp add: good matchMessage_Contains)
    qed
  qed
  with d have none: "\<not> (\<exists>m \<in> set (drained s). Contains m ''mismatch'')" by auto
  from invariant_exited(2) [OF inv x] n show "length (drained s) = 3" by simp
  from d fl bad show "errorMessage (?is ! failing) failure \<in> set (drained s)"
    by (metis imageI lessThan_iff)
  from inv none show "exitHealthy s" by (simp add: invariant_def processResults_iff)
  from exitCode_at_exit [OF f ne m x] none show "exitCode s = Some 0" by simp
qed

theorem verdict_by_substring_witness:
  "\<exists>s. main net_second_unavailable ''NA1,NA2,NA3'' ''v1'' (sequential 3) = Some s \<and>
     exited s \<and> length (drained s) = 3 \<and>
     ''Error fetching status for instance NA2: API returned non-OK status: 503 Service Unavailable''
       \<in> set (drained s) \<and>
     exitHealthy s \<and> exitCode s = Some 0 \<and> processResults (drained s)"
proof -
  have p: "parseInstances ''NA1,NA2,NA3'' = [''NA1'', ''NA2'', ''NA3'']" by code_simp
  have "case main net_second_unavailable ''NA1,NA2,NA3'' ''v1'' (sequential 3) of
      None \<Rightarrow> False | Some s \<Rightarrow> exited s"
    by code_simp
  then obtain s
    where m: "main net_second_unavailable ''NA1,NA2,NA3'' ''v1'' (sequential 3) = Some s"
    and x: "exited s"
    by (cases "main net_second_unavailable ''NA1,NA2,NA3'' ''v1'' (sequential 3)") auto
  have e: "\<not> Contains (Error (NonOKStatus ''503 Service Unavailable'')) ''mismatch''"
    by simp
  have c: "\<not> Contains ''NA1'' ''mismatch''" "\<not> Contains ''NA2'' ''mismatch''"
    "\<not> Contains ''NA3'' ''mismatch''" "\<not> Contains ''v1'' ''mismatch''"
    by simp_all
  have o: "\<forall>j<3. j \<noteq> 1 \<longrightarrow>
      fetchStatus (net_second_unavailable j) ([''NA1'', ''NA2'', ''NA3''] ! j) = Inr ''v1''"
    by (simp add: net_second_unavailable_def fetch_ok_v1)
  have u: "fetchStatus (net_second_unavailable 1) ([''NA1'', ''NA2'', ''NA3''] ! 1) =
      Inl (NonOKStatus ''503 Service Unavailable'')"
    by (simp add: net_second_unavailable_def fetch_unavailable)
  note t = verdict_by_substring [of "drained s" "''NA2''" "NonOKStatus ''503 Service Unavailable''"
      "''NA1,NA2,NA3''" "''v1''" 1 net_second_unavailable "NonOKStatus ''503 Service Unavailable''"]
  from t have 1: "processResults (drained s) \<longleftrightarrow>
      \<not> (\<exists>m \<in> set (drained s). Contains m ''mismatch'')" by blast
  from t [THEN conjunct2, THEN conjunct2, rule_format, of sched s for sched] m x e c o u
  have 2: "length (drained s) = 3 \<and>
      errorMessage ([''NA1'', ''NA2'', ''NA3''] ! 1) (NonOKStatus ''503 Service Unavailable'')
        \<in> set (drained s) \<and>
      exitHealthy s \<and> exitCode s = Some 0"
    by (simp add: p)
  from main_valid [of "''NA1,NA2,NA3''" "''v1''", OF _ _ _ m] 2
  have 3: "processResults (drained s)" by (simp add: p invariant_def)
  from 2 have "errorMessage ''NA2'' (NonOKStatus ''503 Service Unavailable'') \<in> set (drained s)"
    by simp
  then have 4:
    "''Error fetching status for instance NA2: API returned non-OK status: 503 Service Unavailable''
       \<in> set (drained s)"
    by (simp add: errorMessage_def)
  from m x 2 3 4 show ?thesis by blast
qed

text \<open>
  The claim as the specification states it fails when an instance is named
  \<open>mismatch1\<close>: of the three fetches exactly one fails, with \<open>503\<close>, and the two others
  return the expected version, yet the verdict is unhealthy and the exit code 1, the
  error message holding the instance name.
\<close>

theorem verdict_by_substring_counterexample:
  "parseInstances ''mismatch1,NA2,NA3'' = [''mismatch1'', ''NA2'', ''NA3''] \<and>
   fetchStatus (net_first_unavailable 0) ''mismatch1'' =
     Inl (NonOKStatus ''503 Service Unavailable'') \<and>
   fetchStatus (net_first_unavailable 1) ''NA2'' = Inr ''v1'' \<and>
   fetchStatus (net_first_unavailable 2) ''NA3'' = Inr ''v1'' \<and>
   map_option drained (main net_first_unavailable ''mismatch1,NA2,NA3'' ''v1'' (sequential 3)) =
     Some [''Error fetching status for instance mismatch1: API returned non-OK status: 503 Service Unavailable'',
           ''Release number matches for instance NA2: v1'',
           ''Release number matches for instance NA3: v1''] \<and>
   map_option exitHealthy
     (main net_first_unavailable ''mismatch1,NA2,NA3'' ''v1'' (sequential 3)) = Some False \<and>
   map_option exitCode
     (main net_first_unavailable ''mismatch1,NA2,NA3'' ''v1'' (sequential 3)) = Some (Some 1)"
  by code_simp

text \<open>
  C4, as the code has it. When \<open>main\<close> exits, the exit code is 1 exactly when a flag is
  the empty string, or no instance is left after parsing, or a message read contains
  \<open>mismatch\<close>; otherwise it is 0. Every report of a version mismatch is such a
  message. With an empty flag \<open>main\<close> exits with 1 at once: no step is taken and
  \<open>http.Get\<close> is never called. Some run of every invocation ends with \<open>main\<close> exited.
\<close>

theorem exit_code:
  "(\<forall>sched s. main net instanceFlag versionFlag sched = Some s \<and> exited s \<longrightarrow>
      (exitCode s = Some 1 \<longleftrightarrow>
         instanceFlag = [] \<or> versionFlag = [] \<or> parseInstances instanceFlag = [] \<or>
         (\<exists>m \<in> set (drained s). Contains m ''mismatch'')) \<and>
      (exitCode s = Some 1 \<or> exitCode s = Some 0) \<and>
      (\<forall>j r. instanceFlag \<noteq> [] \<and> versionFlag \<noteq> [] \<and>
         j < length (parseInstances instanceFlag) \<and>
         fetchStatus (net j) (parseInstances instanceFlag ! j) = Inr r \<and> r \<noteq> versionFlag \<longrightarrow>
         mismatchMessage (parseInstances instanceFlag ! j) versionFlag r \<in> set (drained s) \<and>
         exitCode s = Some 1)) \<and>
   (instanceFlag = [] \<or> versionFlag = [] \<longrightarrow>
      main net instanceFlag versionFlag [] = Some (initial (Exited 1) 0) \<and>
      (\<forall>sched s. main net instanceFlag versionFlag sched = Some s \<longrightarrow>
         sched = [] \<and> exitCode s = Some 1 \<and> requests s = [])) \<and>
   (\<exists>sched s. main net instanceFlag versionFlag sched = Some s \<and> exited s)"
proof (intro conjI)
  show "\<exists>sched s. main net instanceFlag versionFlag sched = Some s \<and> exited s"
    by (rule main_can_finish)
next
  show "instanceFlag = [] \<or> versionFlag = [] \<longrightarrow>
      main net instanceFlag versionFlag [] = Some (initial (Exited 1) 0) \<and>
      (\<forall>sched s. main net instanceFlag versionFlag sched = Some s \<longrightarrow>
         sched = [] \<and> exitCode s = Some 1 \<and> requests s = [])"
  proof (intro impI conjI allI)
    assume a: "instanceFlag = [] \<or> versionFlag = []"
    then show "main net instanceFlag versionFlag [] = Some (initial (Exited 1) 0)"
      by (auto simp: main_def start_invalid)
    fix sched s
    assume "main net instanceFlag versionFlag sched = Some s"
    with a have "sched = [] \<and> s = initial (Exited 1) 0"
      by (intro main_invalid [of instanceFlag versionFlag net sched s]) auto
    then show "sched = []" and "exitCode s = Some 1" and "requests s = []"
      by (simp_all add: initial_exited)
  qed
next
  show "\<forall>sched s. main net instanceFlag versionFlag sched = Some s \<and> exited s \<longrightarrow>
      (exitCode s = Some 1 \<longleftrightarrow>
         instanceFlag = [] \<or> versionFlag = [] \<or> parseInstances instanceFlag = [] \<or>
         (\<exists>m \<in> set (drained s). Contains m ''mismatch'')) \<and>
      (exitCode s = Some 1 \<or> exitCode s = Some 0) \<and>
      (\<forall>j r. instanceFlag \<noteq> [] \<and> versionFlag \<noteq> [] \<and>
         j < length (parseInstances instanceFlag) \<and>
         fetchStatus (net j) (parseInstances instanceFlag ! j) = Inr r \<and> r \<noteq> versionFlag \<longrightarrow>
         mismatchMessage (parseInstances instanceFlag ! j) versionFlag r \<in> set (drained s) \<and>
         exitCode s = Some 1)"
  proof (intro allI impI)
    fix sched s
    let ?is = "parseInstances instanceFlag"
    assume "main net instanceFlag versionFlag sched = Some s \<and> exited s"
    then have m: "main net instanceFlag versionFlag sched = Some s" and x: "exited s"
      by simp_all
    show "(exitCode s = Some 1 \<longleftrightarrow>
         instanceFlag = [] \<or> versionFlag = [] \<or> ?is = [] \<or>
         (\<exists>m \<in> set (drained s). Contains m ''mismatch'')) \<and>
      (exitCode s = Some 1 \<or> exitCode s = Some 0) \<and>
      (\<forall>j r. instanceFlag \<noteq> [] \<and> versionFlag \<noteq> [] \<and> j < length ?is \<and>
         fetchStatus (net j) (?is ! j) = Inr r \<and> r \<noteq> versionFlag \<longrightarrow>
         mismatchMessage (?is ! j) versionFlag r \<in> set (drained s) \<and> exitCode s = Some 1)"
    proof (cases "instanceFlag = [] \<or> versionFlag = [] \<or> ?is = []")
      case True
      from main_invalid [OF True m] have "exitCode s = Some 1"
        by (simp add: initial_exited)
      with True show ?thesis by auto
    next
      case False
      then have f: "instanceFlag \<noteq> []" "versionFlag \<noteq> []" "?is \<noteq> []" by simp_all
      note c = exitCode_at_exit [OF f m x]
      have r: "mismatchMessage (?is ! j) versionFlag r \<in> set (drained s) \<and> exitCode s = Some 1"
        if "j < length ?is" and "fetchStatus (net j) (?is ! j) = Inr r" and "r \<noteq> versionFlag"
        for j r
      proof -
        from that(2,3) have "message net versionFlag ?is j = mismatchMessage (?is ! j) versionFlag r"
          by (simp add: message_nth compareReleaseNumbers_def)
        with exited_messages [OF f m x] that(1)
        have d: "mismatchMessage (?is ! j) versionFlag r \<in> set (drained s)"
          by (metis imageI lessThan_iff)
        with mismatchMessage_Contains [of "?is ! j" versionFlag r] c
        have "exitCode s = Some 1" by auto
        with d show ?thesis by simp
      qed
      from c False have 1: "exitCode s = Some 1 \<longleftrightarrow>
          instanceFlag = [] \<or> versionFlag = [] \<or> ?is = [] \<or>
          (\<exists>m \<in> set (drained s). Contains m ''mismatch'')"
        by auto
      from c have 2: "exitCode s = Some 1 \<or> exitCode s = Some 0" by auto
      from r have 3: "\<forall>j r. instanceFlag \<noteq> [] \<and> versionFlag \<noteq> [] \<and> j < length ?is \<and>
         fetchStatus (net j) (?is ! j) = Inr r \<and> r \<noteq> versionFlag \<longrightarrow>
         mismatchMessage (?is ! j) versionFlag r \<in> set (drained s) \<and> exitCode s = Some 1"
        by blast
      from 1 2 3 show ?thesis by blast
    qed
  qed
qed

theorem exit_code_witness:
  "map_option exitCode (main net_ok_v1 ''NA1'' ''v2'' (sequential 1)) = Some (Some 1) \<and>
   map_option exitCode (main net_ok_v1 ''NA1'' ''v1'' (sequential 1)) = Some (Some 0) \<and>
   main net_ok_v1 [] ''v1'' [] = Some (initial (Exited 1) 0) \<and>
   exitCode (initial (Exited 1) 0) = Some 1 \<and> requests (initial (Exited 1) 0) = []"
proof -
  have p: "parseInstances ''NA1'' = [''NA1'']" by code_simp
  have "case main net_ok_v1 ''NA1'' ''v2'' (sequential 1) of None \<Rightarrow> False
    | Some s \<Rightarrow> exited s"
    by code_simp
  then obtain s where m: "main net_ok_v1 ''NA1'' ''v2'' (sequential 1) = Some s"
    and x: "exited s"
    by (cases "main net_ok_v1 ''NA1'' ''v2'' (sequential 1)") auto
  have "fetchStatus (net_ok_v1 0) (parseInstances ''NA1'' ! 0) = Inr ''v1''"
    by (simp add: net_ok_v1_def fetch_ok_v1)
  then have f: "0 < length (parseInstances ''NA1'') \<and>
      fetchStatus (net_ok_v1 0) (parseInstances ''NA1'' ! 0) = Inr ''v1'' \<and> ''v1'' \<noteq> ''v2''"
    by (simp add: p)
  from exit_code [of net_ok_v1 "''NA1''" "''v2''"] m x
  have "\<forall>j r. ''NA1'' \<noteq> [] \<and> ''v2'' \<noteq> [] \<and> j < length (parseInstances ''NA1'') \<and>
      fetchStatus (net_ok_v1 j) (parseInstances ''NA1'' ! j) = Inr r \<and> r \<noteq> ''v2'' \<longrightarrow>
      mismatchMessage (parseInstances ''NA1'' ! j) ''v2'' r \<in> set (drained s) \<and>
      exitCode s = Some 1"
    by blast
  with f have "exitCode s = Some 1" by blast
  with m have 1: "map_option exitCode (main net_ok_v1 ''NA1'' ''v2'' (sequential 1)) =
      Some (Some 1)" by simp
  have "case main net_ok_v1 ''NA1'' ''v1'' (sequential 1) of None \<Rightarrow> False
    | Some s \<Rightarrow> exited s \<and> drained s = [''Release number matches for instance NA1: v1'']"
    by code_simp
  then obtain s' where m': "main net_ok_v1 ''NA1'' ''v1'' (sequential 1) = Some s'"
    and x': "exited s'"
    and d': "drained s' = [''Release number matches for instance NA1: v1'']"
    by (cases "main net_ok_v1 ''NA1'' ''v1'' (sequential 1)") auto
  from exit_code [of net_ok_v1 "''NA1''" "''v1''"] m' x'
  have "(exitCode s' = Some 1 \<longleftrightarrow>
         ''NA1'' = [] \<or> ''v1'' = [] \<or> parseInstances ''NA1'' = [] \<or>
         (\<exists>m \<in> set (drained s'). Contains m ''mismatch'')) \<and>
      (exitCode s' = Some 1 \<or> exitCode s' = Some 0)"
    by blast
  then have "exitCode s' = Some 0" by (auto simp: p d')
  with m' have 2: "map_option exitCode (main net_ok_v1 ''NA1'' ''v1'' (sequential 1)) =
      Some (Some 0)" by simp
  from exit_code [of net_ok_v1 "[]" "''v1''", THEN conjunct2, THEN conjunct1]
  have 3: "main net_ok_v1 [] ''v1'' [] = Some (initial (Exited 1) 0)" by simp
  from 3 exit_code [of net_ok_v1 "[]" "''v1''", THEN conjunct2, THEN conjunct1]
  have 4: "exitCode (initial (Exited 1) 0) = Some 1 \<and> requests (initial (Exited 1) 0) = []"
    by blast
  from 1 2 3 4 show ?thesis by simp
qed

text \<open>
  The claim as the specification states it fails when an instance is named
  \<open>mismatch2\<close>: both flags are given, two instances are parsed, both fetches return the
  expected version and both messages report a match, yet the exit code is 1.
\<close>

theorem exit_code_counterexample:
  "''NA1,mismatch2'' \<noteq> [] \<and> ''v1'' \<noteq> [] \<and>
   parseInstances ''NA1,mismatch2'' = [''NA1'', ''mismatch2''] \<and>
   fetchStatus (net_ok_v1 0) ''NA1'' = Inr ''v1'' \<and>
   fetchStatus (net_ok_v1 1) ''mismatch2'' = Inr ''v1'' \<and>
   map_option drained (main net_ok_v1 ''NA1,mismatch2'' ''v1'' (sequential 2)) =
     Some [matchMessage ''NA1'' ''v1'', matchMessage ''mismatch2'' ''v1''] \<and>
   map_option exitCode (main net_ok_v1 ''NA1,mismatch2'' ''v1'' (sequential 2)) =
     Some (Some 1)"
  by code_simp

text \<open>
  C9. An instance name that contains \<open>mismatch\<close> makes the message of a successful,
  matching comparison contain it, and \<open>processResults\<close> then returns false: whenever
  some parsed instance name contains \<open>mismatch\<close> the process exits with 1, whatever the
  network answers; and there is an invocation in which every fetch succeeds with the
  expected version and the process exits with 1.
\<close>

theorem mismatch_in_instance_name:
  "(Contains instance ''mismatch'' \<and> fetchStatus get instance = Inr expectedVersion \<longrightarrow>
      compareReleaseNumbers get instance expectedVersion =
        ''Release number matches for instance '' @ instance @ '': '' @ expectedVersion \<and>
      Contains (compareReleaseNumbers get instance expectedVersion) ''mismatch'') \<and>
   (m \<in> set rs \<and> Contains m ''mismatch'' \<longrightarrow> \<not> processResults rs) \<and>
   (\<forall>sched s. main net instanceFlag versionFlag sched = Some s \<and> exited s \<and>
      (\<exists>x \<in> set (parseInstances instanceFlag). Contains x ''mismatch'') \<longrightarrow>
      exitCode s = Some 1 \<and> (versionFlag \<noteq> [] \<longrightarrow> \<not> processResults (drained s))) \<and>
   (\<exists>net instanceFlag versionFlag sched s.
      main net instanceFlag versionFlag sched = Some s \<and> exited s \<and>
      instanceFlag \<noteq> [] \<and> versionFlag \<noteq> [] \<and> parseInstances instanceFlag \<noteq> [] \<and>
      (\<forall>j<length (parseInstances instanceFlag).
         fetchStatus (net j) (parseInstances instanceFlag ! j) = Inr versionFlag) \<and>
      exitCode s = Some 1)"
proof (intro conjI allI impI)
  assume a: "Contains instance ''mismatch'' \<and> fetchStatus get instance = Inr expectedVersion"
  then show "compareReleaseNumbers get instance expectedVersion =
      ''Release number matches for instance '' @ instance @ '': '' @ expectedVersion"
    by (simp add: compareReleaseNumbers_def matchMessage_def)
  from a show "Contains (compareReleaseNumbers get instance expectedVersion) ''mismatch''"
    by (simp add: compareReleaseNumbers_Contains_instance)
next
  assume "m \<in> set rs \<and> Contains m ''mismatch''"
  then show "\<not> processResults rs" by (auto simp: processResults_iff)
next
  fix sched s
  let ?is = "parseInstances instanceFlag"
  assume a: "main net instanceFlag versionFlag sched = Some s \<and> exited s \<and>
      (\<exists>x \<in> set ?is. Contains x ''mismatch'')"
  then have m: "main net instanceFlag versionFlag sched = Some s" and x: "exited s"
    and ne: "?is \<noteq> []" by auto
  from ne have i: "instanceFlag \<noteq> []"
    using parseInstances_whitespaceOnly [OF whitespaceOnly_Nil] by auto
  show "exitCode s = Some 1"
  proof (cases "versionFlag = []")
    case True
    then have "instanceFlag = [] \<or> versionFlag = [] \<or> ?is = []" by blast
    from main_invalid [OF this m] show ?thesis by (simp add: initial_exited)
  next
    case False
    from a obtain j where j: "j < length ?is" and c: "Contains (?is ! j) ''mismatch''"
      by (auto simp: in_set_conv_nth)
    from c have "Contains (message net versionFlag ?is j) ''mismatch''"
      by (simp add: message_nth compareReleaseNumbers_Contains_instance)
    with exited_messages [OF i False ne m x] j
    have "\<exists>m \<in> set (drained s). Contains m ''mismatch''" by auto
    with exitCode_at_exit [OF i False ne m x] show ?thesis by simp
  qed
  {
    assume v: "versionFlag \<noteq> []"
    from a obtain j where j: "j < length ?is" and c: "Contains (?is ! j) ''mismatch''"
      by (auto simp: in_set_conv_nth)
    from c have "Contains (message net versionFlag ?is j) ''mismatch''"
      by (simp add: message_nth compareReleaseNumbers_Contains_instance)
    with exited_messages [OF i v ne m x] j
    have "\<exists>m \<in> set (drained s). Contains m ''mismatch''" by auto
    then show "\<not> processResults (drained s)" by (simp add: processResults_iff)
  }
next
  show "\<exists>net instanceFlag versionFlag sched s.
      main net instanceFlag versionFlag sched = Some s \<and> exited s \<and>
      instanceFlag \<noteq> [] \<and> versionFlag \<noteq> [] \<and> parseInstances instanceFlag \<noteq> [] \<and>
      (\<forall>j<length (parseInstances instanceFlag).
         fetchStatus (net j) (parseInstances instanceFlag ! j) = Inr versionFlag) \<and>
      exitCode s = Some 1"
  proof -
    have p: "parseInstances ''mismatch'' = [''mismatch'']" by code_simp
    have "case main net_ok_v1 ''mismatch'' ''v1'' (sequential 1) of
        None \<Rightarrow> False | Some s \<Rightarrow> exited s \<and> exitCode s = Some 1"
      by code_simp
    then obtain s where "main net_ok_v1 ''mismatch'' ''v1'' (sequential 1) = Some s"
      and "exited s" and "exitCode s = Some 1"
      by (cases "main net_ok_v1 ''mismatch'' ''v1'' (sequential 1)") auto
    moreover have "\<forall>j<length (parseInstances ''mismatch'').
        fetchStatus (net_ok_v1 j) (parseInstances ''mismatch'' ! j) = Inr ''v1''"
      by (simp add: p net_ok_v1_def fetch_ok_v1)
    moreover have "''mismatch'' \<noteq> []" and "''v1'' \<noteq> []"
      and "parseInstances ''mismatch'' \<noteq> []"
      by (simp_all add: p)
    ultimately show ?thesis by blast
  qed
qed

theorem mismatch_in_instance_name_witness:
  "compareReleaseNumbers get_ok_v1 ''mismatch'' ''v1'' =
     ''Release number matches for instance mismatch: v1'' \<and>
   Contains (compareReleaseNumbers get_ok_v1 ''mismatch'' ''v1'') ''mismatch'' \<and>
   \<not> processResults [compareReleaseNumbers get_ok_v1 ''mismatch'' ''v1''] \<and>
   map_option exitCode (main net_ok_v1 ''mismatch'' ''v1'' (sequential 1)) = Some (Some 1)"
proof -
  let ?m = "compareReleaseNumbers get_ok_v1 ''mismatch'' ''v1''"
  have c: "Contains ''mismatch'' ''mismatch''" by simp
  have p: "parseInstances ''mismatch'' = [''mismatch'']" by code_simp
  note t = mismatch_in_instance_name [of "''mismatch''" get_ok_v1 "''v1''" ?m "[?m]"
      net_ok_v1 "''mismatch''" "''v1''"]
  from t c fetch_ok_v1 [of "''mismatch''"]
  have 1: "?m = ''Release number matches for instance mismatch: v1'' \<and>
      Contains ?m ''mismatch''"
    by simp
  with t have 2: "\<not> processResults [?m]" by simp
  have "case main net_ok_v1 ''mismatch'' ''v1'' (sequential 1) of
      None \<Rightarrow> False | Some s \<Rightarrow> exited s"
    by code_simp
  then obtain s where m: "main net_ok_v1 ''mismatch'' ''v1'' (sequential 1) = Some s"
    and x: "exited s"
    by (cases "main net_ok_v1 ''mismatch'' ''v1'' (sequential 1)") auto
  from t have "\<forall>sched s. main net_ok_v1 ''mismatch'' ''v1'' sched = Some s \<and> exited s \<and>
      (\<exists>x \<in> set (parseInstances ''mismatch''). Contains x ''mismatch'') \<longrightarrow>
      exitCode s = Some 1 \<and> (''v1'' \<noteq> [] \<longrightarrow> \<not> processResults (drained s))"
    by blast
  with m x c have "exitCode s = Some 1" unfolding p by auto
  with m have 3: "map_option exitCode (main net_ok_v1 ''mismatch'' ''v1'' (sequential 1)) =
      Some (Some 1)" by simp
  from 1 2 3 show ?thesis by blast
qed

lemma exited_requests:
  assumes "instanceFlag \<noteq> []" and "versionFlag \<noteq> []" and "parseInstances instanceFlag \<noteq> []"
    and "main net instanceFlag versionFlag sched = Some s" and "exited s"
  shows "mset (requests s) = mset (map statusURL (parseInstances instanceFlag))"
  using invariant_exited(6) [OF main_valid [OF assms(1-4)] assms(5)] .

text \<open>
  C10. The flags are checked against the empty string, untrimmed. A version flag made
  of white space only passes the checks: \<open>main\<close> starts the comparators, every instance
  is requested, and each comparator compares the fetched version with the flag as it
  is. The messages read at exit are the comparators' messages for the untrimmed flag,
  so a fetched version that differs from the flag, the trimmed flag (the empty string)
  included, is reported as a mismatch and the exit code is 1. An instance flag made of
  white space only passes the first check, parses to no instance, and \<open>main\<close> exits
  with 1 at once: no step is taken and \<open>http.Get\<close> is never called.
\<close>

theorem whitespace_flags:
  "(whitespaceOnly versionFlag \<and> versionFlag \<noteq> [] \<and> instanceFlag \<noteq> [] \<and>
      parseInstances instanceFlag \<noteq> [] \<longrightarrow>
      \<not> (instanceFlag = [] \<or> versionFlag = []) \<and>
      start instanceFlag versionFlag =
        initial (Spawning (parseInstances instanceFlag)) (length (parseInstances instanceFlag)) \<and>
      \<not> exited (start instanceFlag versionFlag) \<and>
      TrimSpace versionFlag \<noteq> versionFlag \<and>
      (\<forall>sched s. main net instanceFlag versionFlag sched = Some s \<and> exited s \<longrightarrow>
         mset (requests s) = mset (map statusURL (parseInstances instanceFlag)) \<and>
         mset (drained s) =
           mset (map (\<lambda>j. compareReleaseNumbers (net j) (parseInstances instanceFlag ! j)
             versionFlag) [0..<length (parseInstances instanceFlag)]) \<and>
         (\<forall>j r. j < length (parseInstances instanceFlag) \<and>
            fetchStatus (net j) (parseInstances instanceFlag ! j) = Inr r \<longrightarrow>
            (if r = versionFlag then matchMessage (parseInstances instanceFlag ! j) r
             else mismatchMessage (parseInstances instanceFlag ! j) versionFlag r)
              \<in> set (drained s) \<and>
            (r \<noteq> versionFlag \<longrightarrow> exitCode s = Some 1)) \<and>
         (\<forall>j. j < length (parseInstances instanceFlag) \<and>
            fetchStatus (net j) (parseInstances instanceFlag ! j) = Inr (TrimSpace versionFlag) \<longrightarrow>
            mismatchMessage (parseInstances instanceFlag ! j) versionFlag (TrimSpace versionFlag)
              \<in> set (drained s) \<and>
            exitCode s = Some 1)) \<and>
      (\<exists>sched s. main net instanceFlag versionFlag sched = Some s \<and> exited s)) \<and>
   (whitespaceOnly instanceFlag \<and> instanceFlag \<noteq> [] \<and> versionFlag \<noteq> [] \<longrightarrow>
      \<not> (instanceFlag = [] \<or> versionFlag = []) \<and>
      length (parseInstances instanceFlag) = 0 \<and>
      main net instanceFlag versionFlag [] = Some (initial (Exited 1) 0) \<and>
      (\<forall>sched s. main net instanceFlag versionFlag sched = Some s \<longrightarrow>
         sched = [] \<and> exitCode s = Some 1 \<and> requests s = []))"
proof (intro conjI impI)
  let ?is = "parseInstances instanceFlag"
  assume a: "whitespaceOnly versionFlag \<and> versionFlag \<noteq> [] \<and> instanceFlag \<noteq> [] \<and>
      ?is \<noteq> []"
  then have f: "instanceFlag \<noteq> []" "versionFlag \<noteq> []" "?is \<noteq> []" by simp_all
  from a show "\<not> (instanceFlag = [] \<or> versionFlag = [])" by simp
  from a show s: "start instanceFlag versionFlag = initial (Spawning ?is) (length ?is)"
    by (simp add: start_valid)
  show "\<not> exited (start instanceFlag versionFlag)"
    unfolding s by (simp add: exited_def initial_def)
  from a have t: "TrimSpace versionFlag = []" by (simp add: whitespaceOnly_TrimSpace)
  with a show tv: "TrimSpace versionFlag \<noteq> versionFlag" by auto
  show "\<exists>sched s. main net instanceFlag versionFlag sched = Some s \<and> exited s"
    by (rule main_can_finish)
  show "\<forall>sched s. main net instanceFlag versionFlag sched = Some s \<and> exited s \<longrightarrow>
       mset (requests s) = mset (map statusURL ?is) \<and>
       mset (drained s) =
         mset (map (\<lambda>j. compareReleaseNumbers (net j) (?is ! j) versionFlag)
           [0..<length ?is]) \<and>
       (\<forall>j r. j < length ?is \<and> fetchStatus (net j) (?is ! j) = Inr r \<longrightarrow>
          (if r = versionFlag then matchMessage (?is ! j) r
           else mismatchMessage (?is ! j) versionFlag r) \<in> set (drained s) \<and>
          (r \<noteq> versionFlag \<longrightarrow> exitCode s = Some 1)) \<and>
       (\<forall>j. j < length ?is \<and> fetchStatus (net j) (?is ! j) = Inr (TrimSpace versionFlag) \<longrightarrow>
          mismatchMessage (?is ! j) versionFlag (TrimSpace versionFlag) \<in> set (drained s) \<and>
          exitCode s = Some 1)"
  proof (intro allI impI)
    fix sched s
    assume "main net instanceFlag versionFlag sched = Some s \<and> exited s"
    then have m: "main net instanceFlag versionFlag sched = Some s" and x: "exited s"
      by simp_all
    have 1: "mset (requests s) = mset (map statusURL ?is)"
      by (rule exited_requests [OF f m x])
    have "message net versionFlag ?is = (\<lambda>j. compareReleaseNumbers (net j) (?is ! j) versionFlag)"
      by (rule ext) (simp add: message_nth)
    with invariant_exited(1) [OF main_valid [OF f m] x]
    have 2: "mset (drained s) =
        mset (map (\<lambda>j. compareReleaseNumbers (net j) (?is ! j) versionFlag) [0..<length ?is])"
      by simp
    have 3: "(if r = versionFlag then matchMessage (?is ! j) r
           else mismatchMessage (?is ! j) versionFlag r) \<in> set (drained s) \<and>
          (r \<noteq> versionFlag \<longrightarrow> exitCode s = Some 1)"
      if "j < length ?is" and "fetchStatus (net j) (?is ! j) = Inr r" for j r
    proof -
      from that(2) have "message net versionFlag ?is j =
          (if r = versionFlag then matchMessage (?is ! j) r
           else mismatchMessage (?is ! j) versionFlag r)"
        by (simp add: message_nth compareReleaseNumbers_def)
      with exited_messages [OF f m x] that(1)
      have d: "(if r = versionFlag then matchMessage (?is ! j) r
           else mismatchMessage (?is ! j) versionFlag r) \<in> set (drained s)"
        by (metis imageI lessThan_iff)
      have "exitCode s = Some 1" if "r \<noteq> versionFlag"
      proof -
        from d that have "mismatchMessage (?is ! j) versionFlag r \<in> set (drained s)" by simp
        with mismatchMessage_Contains [of "?is ! j" versionFlag r]
        have "\<exists>m \<in> set (drained s). Contains m ''mismatch''" by blast
        with exitCode_at_exit [OF f m x] show ?thesis by simp
      qed
      with d show ?thesis by blast
    qed
    have 4: "mismatchMessage (?is ! j) versionFlag (TrimSpace versionFlag) \<in> set (drained s) \<and>
          exitCode s = Some 1"
      if "j < length ?is" and "fetchStatus (net j) (?is ! j) = Inr (TrimSpace versionFlag)" for j
      using 3 [OF that] tv by simp
    from 1 2 3 4 show "mset (requests s) = mset (map statusURL ?is) \<and>
       mset (drained s) =
         mset (map (\<lambda>j. compareReleaseNumbers (net j) (?is ! j) versionFlag)
           [0..<length ?is]) \<and>
       (\<forall>j r. j < length ?is \<and> fetchStatus (net j) (?is ! j) = Inr r \<longrightarrow>
          (if r = versionFlag then matchMessage (?is ! j) r
           else mismatchMessage (?is ! j) versionFlag r) \<in> set (drained s) \<and>
          (r \<noteq> versionFlag \<longrightarrow> exitCode s = Some 1)) \<and>
       (\<forall>j. j < length ?is \<and> fetchStatus (net j) (?is ! j) = Inr (TrimSpace versionFlag) \<longrightarrow>
          mismatchMessage (?is ! j) versionFlag (TrimSpace versionFlag) \<in> set (drained s) \<and>
          exitCode s = Some 1)"
      by blast
  qed
next
  assume a: "whitespaceOnly instanceFlag \<and> instanceFlag \<noteq> [] \<and> versionFlag \<noteq> []"
  then show "\<not> (instanceFlag = [] \<or> versionFlag = [])" by simp
  from a have p: "parseInstances instanceFlag = []"
    by (simp add: parseInstances_whitespaceOnly)
  then show "length (parseInstances instanceFlag) = 0" by simp
  from p show "main net instanceFlag versionFlag [] = Some (initial (Exited 1) 0)"
    by (simp add: main_def start_invalid)
  show "\<forall>sched s. main net instanceFlag versionFlag sched = Some s \<longrightarrow>
         sched = [] \<and> exitCode s = Some 1 \<and> requests s = []"
  proof (intro allI impI)
    fix sched s
    assume "main net instanceFlag versionFlag sched = Some s"
    with p have "sched = [] \<and> s = initial (Exited 1) 0"
      by (intro main_invalid [of instanceFlag versionFlag net sched s]) auto
    then show "sched = [] \<and> exitCode s = Some 1 \<and> requests s = []"
      by (simp add: initial_exited)
  qed
qed


theorem whitespace_flags_witness:
  "(\<exists>s. main net_empty_object ''NA1'' ''  '' (sequential 1) = Some s \<and> exited s \<and>
      mset (requests s) = {#statusURL ''NA1''#} \<and>
      ''Release number mismatch for instance NA1: expected   , got '' \<in> set (drained s) \<and>
      exitCode s = Some 1) \<and>
   (\<exists>s. main net_ok_v1 ''NA1'' ''  '' (sequential 1) = Some s \<and> exited s \<and>
      ''Release number mismatch for instance NA1: expected   , got v1'' \<in> set (drained s) \<and>
      exitCode s = Some 1) \<and>
   start ''NA1'' ''  '' = initial (Spawning [''NA1'']) 1 \<and>
   parseInstances ''  '' = [] \<and>
   main net_ok_v1 ''  '' ''v1'' [] = Some (initial (Exited 1) 0) \<and>
   exitCode (initial (Exited 1) 0) = Some 1 \<and> requests (initial (Exited 1) 0) = []"
proof -
  have w: "whitespaceOnly ''  ''" by code_simp
  have p: "parseInstances ''NA1'' = [''NA1'']" by code_simp
  have tr: "TrimSpace ''  '' = []" by code_simp
  have h: "whitespaceOnly ''  '' \<and> ''  '' \<noteq> [] \<and> ''NA1'' \<noteq> [] \<and> parseInstances ''NA1'' \<noteq> []"
    using w p by simp
  have e: "fetchStatus (net_empty_object 0) (parseInstances ''NA1'' ! 0) = Inr (TrimSpace ''  '')"
    unfolding p tr net_empty_object_def
    by (simp add: fetchStatus_def StatusOK_def get_empty_object_def decodeResponse_empty_object)
      (simp add: empty_object_def)
  have o: "fetchStatus (net_ok_v1 0) (parseInstances ''NA1'' ! 0) = Inr ''v1''"
    by (simp add: p net_ok_v1_def fetch_ok_v1)
  have "case main net_empty_object ''NA1'' ''  '' (sequential 1) of
      None \<Rightarrow> False | Some s \<Rightarrow> exited s"
    by code_simp
  then obtain s where m: "main net_empty_object ''NA1'' ''  '' (sequential 1) = Some s"
    and x: "exited s"
    by (cases "main net_empty_object ''NA1'' ''  '' (sequential 1)") auto
  from whitespace_flags [of "''  ''" "''NA1''" net_empty_object, THEN conjunct1, rule_format, OF h]
  have a: "\<forall>sched s. main net_empty_object ''NA1'' ''  '' sched = Some s \<and> exited s \<longrightarrow>
      mset (requests s) = mset (map statusURL (parseInstances ''NA1'')) \<and>
      (\<forall>j. j < length (parseInstances ''NA1'') \<and>
         fetchStatus (net_empty_object j) (parseInstances ''NA1'' ! j) = Inr (TrimSpace ''  '') \<longrightarrow>
         mismatchMessage (parseInstances ''NA1'' ! j) ''  '' (TrimSpace ''  '') \<in> set (drained s) \<and>
         exitCode s = Some 1)"
    and st: "start ''NA1'' ''  '' =
      initial (Spawning (parseInstances ''NA1'')) (length (parseInstances ''NA1''))"
    by blast+
  from a m x have "mset (requests s) = mset (map statusURL (parseInstances ''NA1''))"
    and "\<forall>j. j < length (parseInstances ''NA1'') \<and>
         fetchStatus (net_empty_object j) (parseInstances ''NA1'' ! j) = Inr (TrimSpace ''  '') \<longrightarrow>
         mismatchMessage (parseInstances ''NA1'' ! j) ''  '' (TrimSpace ''  '') \<in> set (drained s) \<and>
         exitCode s = Some 1"
    by blast+
  with e have "mset (requests s) = {#statusURL ''NA1''#}"
    and "mismatchMessage (parseInstances ''NA1'' ! 0) ''  '' (TrimSpace ''  '') \<in> set (drained s)"
    and c: "exitCode s = Some 1"
    by (auto simp: p)
  then have r: "mset (requests s) = {#statusURL ''NA1''#}"
    and d: "''Release number mismatch for instance NA1: expected   , got '' \<in> set (drained s)"
    by (simp_all add: p tr mismatchMessage_def)
  from m x r d c have 1: "\<exists>s. main net_empty_object ''NA1'' ''  '' (sequential 1) = Some s \<and>
      exited s \<and> mset (requests s) = {#statusURL ''NA1''#} \<and>
      ''Release number mismatch for instance NA1: expected   , got '' \<in> set (drained s) \<and>
      exitCode s = Some 1"
    by blast
  have "case main net_ok_v1 ''NA1'' ''  '' (sequential 1) of
      None \<Rightarrow> False | Some s \<Rightarrow> exited s"
    by code_simp
  then obtain s' where m': "main net_ok_v1 ''NA1'' ''  '' (sequential 1) = Some s'"
    and x': "exited s'"
    by (cases "main net_ok_v1 ''NA1'' ''  '' (sequential 1)") auto
  from whitespace_flags [of "''  ''" "''NA1''" net_ok_v1, THEN conjunct1, rule_format, OF h]
  have "\<forall>sched s. main net_ok_v1 ''NA1'' ''  '' sched = Some s \<and> exited s \<longrightarrow>
      (\<forall>j r. j < length (parseInstances ''NA1'') \<and>
         fetchStatus (net_ok_v1 j) (parseInstances ''NA1'' ! j) = Inr r \<longrightarrow>
         (if r = ''  '' then matchMessage (parseInstances ''NA1'' ! j) r
          else mismatchMessage (parseInstances ''NA1'' ! j) ''  '' r) \<in> set (drained s) \<and>
         (r \<noteq> ''  '' \<longrightarrow> exitCode s = Some 1))"
    by blast
  with m' x' have "\<forall>j r. j < length (parseInstances ''NA1'') \<and>
         fetchStatus (net_ok_v1 j) (parseInstances ''NA1'' ! j) = Inr r \<longrightarrow>
         (if r = ''  '' then matchMessage (parseInstances ''NA1'' ! j) r
          else mismatchMessage (parseInstances ''NA1'' ! j) ''  '' r) \<in> set (drained s') \<and>
         (r \<noteq> ''  '' \<longrightarrow> exitCode s' = Some 1)"
    by blast
  from this [rule_format, of 0 "''v1''"] o
  have "mismatchMessage ''NA1'' ''  '' ''v1'' \<in> set (drained s')" and c': "exitCode s' = Some 1"
    by (simp_all add: p)
  then have d': "''Release number mismatch for instance NA1: expected   , got v1''
      \<in> set (drained s')"
    by (simp add: mismatchMessage_def)
  from m' x' d' c' have 2: "\<exists>s. main net_ok_v1 ''NA1'' ''  '' (sequential 1) = Some s \<and>
      exited s \<and>
      ''Release number mismatch for instance NA1: expected   , got v1'' \<in> set (drained s) \<and>
      exitCode s = Some 1"
    by blast
  from st have 3: "start ''NA1'' ''  '' = initial (Spawning [''NA1'']) 1" by (simp add: p)
  have h2: "whitespaceOnly ''  '' \<and> ''  '' \<noteq> [] \<and> ''v1'' \<noteq> []" using w by simp
  from whitespace_flags [of "''v1''" "''  ''" net_ok_v1, THEN conjunct2, rule_format, OF h2]
  have 4: "length (parseInstances ''  '') = 0"
    and 5: "main net_ok_v1 ''  '' ''v1'' [] = Some (initial (Exited 1) 0)"
    and 6: "\<forall>sched s. main net_ok_v1 ''  '' ''v1'' sched = Some s \<longrightarrow>
         sched = [] \<and> exitCode s = Some 1 \<and> requests s = []"
    by blast+
  from 5 6 have 7: "exitCode (initial (Exited 1) 0) = Some 1 \<and>
      requests (initial (Exited 1) 0) = []"
    by blast
  from 4 have 8: "parseInstances ''  '' = []" by simp
  from 1 2 3 5 7 8 show ?thesis by blast
qed

end
